theory Spec2Isabelle
  imports Main "HOL-Library.Word"
begin

unbundle bit_operations_syntax

section \<open>The heap arena and its words\<close>

text \<open>
  The allocator of \<^verbatim>\<open>mm.c\<close> keeps all of its data inside one byte arena. Addresses are
  byte offsets from the start of the arena (\<^typ>\<open>nat\<close>), a possibly null pointer is an
  \<^typ>\<open>nat option\<close>. The boundary tags are \<^verbatim>\<open>unsigned int\<close> values and the sizes are
  \<^verbatim>\<open>size_t\<close> values; both are 32 bits wide here (the ILP32 data model that the lab's
  build uses), so all size arithmetic wraps modulo \<open>2 ^ 32\<close>. A tag is
  stored in four consecutive bytes, least significant byte first.

  Where the C code would step outside the arena (a pointer below offset 0) the behaviour of
  the program is undefined; the model truncates the subtraction at 0 there. None of the
  theorems below depends on that case: in a well-formed heap every address that is
  computed lies inside the arena.
\<close>

type_synonym byte = "8 word"
type_synonym word32 = "32 word"
type_synonym memory = "nat \<Rightarrow> byte"

definition WSIZE :: nat where "WSIZE = 4"
definition DSIZE :: nat where "DSIZE = 8"
definition CHUNKSIZE :: word32 where "CHUNKSIZE = push_bit 12 1"

definition PACK :: "word32 \<Rightarrow> word32 \<Rightarrow> word32" where
  "PACK sz alloc = sz OR alloc"

definition GET :: "memory \<Rightarrow> nat \<Rightarrow> word32" where
  "GET m p = ucast (m p) OR push_bit 8 (ucast (m (p + 1)))
             OR push_bit 16 (ucast (m (p + 2))) OR push_bit 24 (ucast (m (p + 3)))"

definition PUT :: "memory \<Rightarrow> nat \<Rightarrow> word32 \<Rightarrow> memory" where
  "PUT m p val = m(p := ucast val, p + 1 := ucast (drop_bit 8 val),
                   p + 2 := ucast (drop_bit 16 val), p + 3 := ucast (drop_bit 24 val))"

definition GET_SIZE :: "memory \<Rightarrow> nat \<Rightarrow> word32" where
  "GET_SIZE m p = GET m p AND NOT 7"

definition GET_ALLOC :: "memory \<Rightarrow> nat \<Rightarrow> word32" where
  "GET_ALLOC m p = GET m p AND 1"

definition HDRP :: "nat \<Rightarrow> nat" where
  "HDRP bp = bp - WSIZE"

definition FTRP :: "memory \<Rightarrow> nat \<Rightarrow> nat" where
  "FTRP m bp = bp + unat (GET_SIZE m (HDRP bp)) - DSIZE"

definition NEXT_BLKP :: "memory \<Rightarrow> nat \<Rightarrow> nat" where
  "NEXT_BLKP m bp = bp + unat (GET_SIZE m (bp - WSIZE))"

definition PREV_BLKP :: "memory \<Rightarrow> nat \<Rightarrow> nat" where
  "PREV_BLKP m bp = bp - unat (GET_SIZE m (bp - DSIZE))"

text \<open>
  The state of the program: the bytes of the arena, the break and the capacity of the
  memory system (\<^verbatim>\<open>memlib\<close>), and the global variable \<^verbatim>\<open>heap_listp\<close>.
\<close>

record heap =
  mem :: memory
  mem_brk :: nat
  mem_max_addr :: nat
  heap_listp :: nat

text \<open>
  Modelled from the spec: \<^verbatim>\<open>mem_sbrk\<close> of \<^verbatim>\<open>memlib.c\<close>, which is not among the sources.
  The specification describes it as the one platform primitive: grow the heap by \<open>N\<close> bytes
  and return a pointer to the start of the new region, or a failure sentinel; the region
  only grows and has an implementation-defined maximum size. The model fails exactly when
  the request would pass that maximum, and then changes nothing.
\<close>

definition mem_sbrk :: "heap \<Rightarrow> word32 \<Rightarrow> (heap \<times> nat) option" where
  "mem_sbrk s incr =
     (if mem_brk s + unat incr > mem_max_addr s then None
      else Some (s\<lparr>mem_brk := mem_brk s + unat incr\<rparr>, mem_brk s))"

section \<open>The allocator\<close>

subsection \<open>coalesce\<close>

definition coalesce :: "heap \<Rightarrow> nat \<Rightarrow> heap \<times> nat" where
  "coalesce s bp =
     (let m = mem s;
          prev_alloc = GET_ALLOC m (FTRP m (PREV_BLKP m bp));
          next_alloc = GET_ALLOC m (HDRP (NEXT_BLKP m bp));
          sz = GET_SIZE m (HDRP bp)
      in if prev_alloc \<noteq> 0 \<and> next_alloc \<noteq> 0 then (s, bp)
         else if prev_alloc \<noteq> 0 \<and> next_alloc = 0 then
           (let sz = sz + GET_SIZE m (HDRP (NEXT_BLKP m bp));
                m1 = PUT m (HDRP bp) (PACK sz 0);
                m2 = PUT m1 (FTRP m1 bp) (PACK sz 0)
            in (s\<lparr>mem := m2\<rparr>, bp))
         else if prev_alloc = 0 \<and> next_alloc \<noteq> 0 then
           (let sz = sz + GET_SIZE m (HDRP (PREV_BLKP m bp));
                m1 = PUT m (FTRP m bp) (PACK sz 0);
                m2 = PUT m1 (HDRP (PREV_BLKP m1 bp)) (PACK sz 0)
            in (s\<lparr>mem := m2\<rparr>, PREV_BLKP m2 bp))
         else
           (let sz = sz + (GET_SIZE m (HDRP (PREV_BLKP m bp))
                               + GET_SIZE m (FTRP m (NEXT_BLKP m bp)));
                m1 = PUT m (HDRP (PREV_BLKP m bp)) (PACK sz 0);
                m2 = PUT m1 (FTRP m1 (NEXT_BLKP m1 bp)) (PACK sz 0)
            in (s\<lparr>mem := m2\<rparr>, PREV_BLKP m2 bp)))"

subsection \<open>extend\_heap\<close>

definition extend_heap :: "heap \<Rightarrow> word32 \<Rightarrow> heap \<times> nat option" where
  "extend_heap s words =
     (let sz = (if words mod 2 \<noteq> 0 then (words + 1) * 4 else words * 4)
      in case mem_sbrk s sz of
           None \<Rightarrow> (s, None)
         | Some (s1, bp) \<Rightarrow>
             (let m1 = PUT (mem s1) (HDRP bp) (PACK sz 0);
                  m2 = PUT m1 (FTRP m1 bp) (PACK sz 0);
                  m3 = PUT m2 (HDRP (NEXT_BLKP m2 bp)) (PACK 0 1);
                  (s2, bp2) = coalesce (s1\<lparr>mem := m3\<rparr>) bp
              in (s2, Some bp2)))"

subsection \<open>mm\_init\<close>

text \<open>
  \<^verbatim>\<open>mm_init\<close> returns \<open>0\<close> or \<open>-1\<close>. When the first request fails, the C code has already
  stored the failure sentinel \<^verbatim>\<open>(void *)-1\<close> in \<^verbatim>\<open>heap_listp\<close>.
\<close>

definition mm_init :: "heap \<Rightarrow> heap \<times> int" where
  "mm_init s =
     (case mem_sbrk s 16 of
        None \<Rightarrow> (s\<lparr>heap_listp := 2 ^ 32 - 1\<rparr>, - 1)
      | Some (s1, p) \<Rightarrow>
          (let m1 = PUT (mem s1) p 0;
               m2 = PUT m1 (p + 1 * WSIZE) (PACK 8 1);
               m3 = PUT m2 (p + 2 * WSIZE) (PACK 8 1);
               m4 = PUT m3 (p + 3 * WSIZE) (PACK 0 1);
               s2 = s1\<lparr>mem := m4, heap_listp := p + 2 * WSIZE\<rparr>
           in case extend_heap s2 (CHUNKSIZE div 4) of
                (s3, None) \<Rightarrow> (s3, - 1)
              | (s3, Some _) \<Rightarrow> (s3, 0)))"

subsection \<open>find\_fit\<close>

text \<open>
  The loop of \<^verbatim>\<open>find_fit\<close> follows the sizes it reads; on arbitrary memory it need not
  stop, so it is a partial function: \<open>None\<close> is "does not return", \<open>Some None\<close> is the
  null pointer, \<open>Some (Some bp)\<close> a block. The function only reads the memory.
\<close>

partial_function (option) find_fit_loop :: "memory \<Rightarrow> word32 \<Rightarrow> nat \<Rightarrow> nat option option" where
  "find_fit_loop m asize bp =
     (if GET_SIZE m (HDRP bp) > 0 then
        (if GET_ALLOC m (HDRP bp) = 0 \<and> asize \<le> GET_SIZE m (HDRP bp) then Some (Some bp)
         else find_fit_loop m asize (NEXT_BLKP m bp))
      else Some None)"

definition find_fit :: "heap \<Rightarrow> word32 \<Rightarrow> nat option option" where
  "find_fit s asize = find_fit_loop (mem s) asize (heap_listp s)"

subsection \<open>place\<close>

definition place :: "heap \<Rightarrow> nat \<Rightarrow> word32 \<Rightarrow> heap" where
  "place s bp asize =
     (let m = mem s;
          csize = GET_SIZE m (HDRP bp)
      in if csize - asize \<ge> 16 then
           (let m1 = PUT m (HDRP bp) (PACK asize 1);
                m2 = PUT m1 (FTRP m1 bp) (PACK asize 1);
                bp' = NEXT_BLKP m2 bp;
                m3 = PUT m2 (HDRP bp') (PACK (csize - asize) 0);
                m4 = PUT m3 (FTRP m3 bp') (PACK (csize - asize) 0)
            in s\<lparr>mem := m4\<rparr>)
         else
           (let m1 = PUT m (HDRP bp) (PACK csize 1);
                m2 = PUT m1 (FTRP m1 bp) (PACK csize 1)
            in s\<lparr>mem := m2\<rparr>))"

subsection \<open>mm\_malloc, mm\_free, mm\_realloc\<close>

definition adjust_size :: "word32 \<Rightarrow> word32" where
  "adjust_size sz = (if sz \<le> 8 then 2 * 8 else 8 * ((sz + 8 + (8 - 1)) div 8))"

definition mm_malloc :: "heap \<Rightarrow> word32 \<Rightarrow> (heap \<times> nat option) option" where
  "mm_malloc s sz =
     (if sz = 0 then Some (s, None)
      else
        (let asize = adjust_size sz
         in case find_fit s asize of
              None \<Rightarrow> None
            | Some (Some bp) \<Rightarrow> Some (place s bp asize, Some bp)
            | Some None \<Rightarrow>
                (let extendsize = max asize CHUNKSIZE
                 in case extend_heap s (extendsize div 4) of
                      (s1, None) \<Rightarrow> Some (s1, None)
                    | (s1, Some bp) \<Rightarrow> Some (place s1 bp asize, Some bp))))"

definition mm_free :: "heap \<Rightarrow> nat \<Rightarrow> heap" where
  "mm_free s ptr =
     (let sz = GET_SIZE (mem s) (HDRP ptr);
          m1 = PUT (mem s) (HDRP ptr) (PACK sz 0);
          m2 = PUT m1 (FTRP m1 ptr) (PACK sz 0)
      in fst (coalesce (s\<lparr>mem := m2\<rparr>) ptr))"

text \<open>
  \<^verbatim>\<open>memcpy\<close> copies \<open>n\<close> bytes from \<open>src\<close> to \<open>dst\<close>. C leaves the copy of overlapping
  regions undefined; the model reads every source byte before the copy.
\<close>

definition memcpy :: "memory \<Rightarrow> nat \<Rightarrow> nat \<Rightarrow> nat \<Rightarrow> memory" where
  "memcpy m dst src n = (\<lambda>a. if dst \<le> a \<and> a < dst + n then m (src + (a - dst)) else m a)"

definition mm_realloc :: "heap \<Rightarrow> nat option \<Rightarrow> word32 \<Rightarrow> (heap \<times> nat option) option" where
  "mm_realloc s ptr sz =
     (case ptr of
        None \<Rightarrow> mm_malloc s sz
      | Some oldptr \<Rightarrow>
          if sz = 0 then Some (mm_free s oldptr, None)
          else
            (case mm_malloc s sz of
               None \<Rightarrow> None
             | Some (s1, None) \<Rightarrow> Some (s1, None)
             | Some (s1, Some newptr) \<Rightarrow>
                 (let copySize = GET_SIZE (mem s1) (HDRP oldptr) - 8;
                      copySize = (if sz < copySize then sz else copySize);
                      s2 = s1\<lparr>mem := memcpy (mem s1) newptr oldptr (unat copySize)\<rparr>
                  in Some (mm_free s2 oldptr, Some newptr))))"

section \<open>The implicit list as data\<close>

text \<open>
  A block is described by its total size in bytes and its allocation bit. The word that
  the header and the footer of such a block hold is \<open>tag sz a\<close>.
\<close>

type_synonym block = "nat \<times> bool"

definition tag :: "nat \<Rightarrow> bool \<Rightarrow> word32" where
  "tag sz a = PACK (of_nat sz) (if a then 1 else 0)"

definition total :: "block list \<Rightarrow> nat" where
  "total bs = sum_list (map fst bs)"

text \<open>
  \<open>tags_at m bp bs\<close>: in memory \<open>m\<close> the blocks \<open>bs\<close> lie one after the other, the first
  with its payload at \<open>bp\<close>, each with a header in the word before its payload and the
  same word as footer in its last word.
\<close>

fun tags_at :: "memory \<Rightarrow> nat \<Rightarrow> block list \<Rightarrow> bool" where
  "tags_at m bp [] = True"
| "tags_at m bp ((sz, a) # bs) =
     (GET m (bp - 4) = tag sz a \<and> GET m (bp + sz - 8) = tag sz a \<and> tags_at m (bp + sz) bs)"

definition block_ok :: "block \<Rightarrow> bool" where
  "block_ok b = (16 \<le> fst b \<and> 8 dvd fst b)"

text \<open>
  The heap invariants of the specification (section 3), for a state \<open>s\<close> whose real blocks
  are \<open>bs\<close>, in address order: the prologue of size 8 sits at \<open>heap_listp\<close>, every block
  has matching header and footer, a size that is a multiple of 8 and at least 16, the
  epilogue header of size 0 follows the last block and ends the arena at the break. The
  arena starts at an 8-byte boundary and fits a 32-bit address space. That no two free
  blocks are neighbours is the separate predicate \<open>no_adj_free\<close>.
\<close>

definition valid_heap :: "heap \<Rightarrow> block list \<Rightarrow> bool" where
  "valid_heap s bs =
     (8 \<le> heap_listp s \<and> 8 dvd heap_listp s \<and> list_all block_ok bs
      \<and> tags_at (mem s) (heap_listp s) ((8, True) # bs)
      \<and> GET (mem s) (heap_listp s + 4 + total bs) = tag 0 True
      \<and> mem_brk s = heap_listp s + 8 + total bs
      \<and> mem_brk s \<le> mem_max_addr s \<and> mem_max_addr s < 2 ^ 32)"

definition sizes_ok :: "block list \<Rightarrow> bool" where
  "sizes_ok bs = list_all (\<lambda>b. 8 \<le> fst b \<and> 8 dvd fst b) bs"

text \<open>The number of bytes that \<^verbatim>\<open>extend_heap\<close> requests for a number of words.\<close>

definition extend_size :: "word32 \<Rightarrow> word32" where
  "extend_size words = (if words mod 2 \<noteq> 0 then (words + 1) * 4 else words * 4)"

text \<open>
  Two auxiliary notions for the proofs: writing both tags of a block, and two memories
  that agree outside the byte range from \<open>lo\<close> up to \<open>hi\<close> (exclusive).
\<close>

definition set_block :: "memory \<Rightarrow> nat \<Rightarrow> nat \<Rightarrow> bool \<Rightarrow> memory" where
  "set_block m bp sz a = PUT (PUT m (bp - 4) (tag sz a)) (bp + sz - 8) (tag sz a)"

definition same_outside :: "memory \<Rightarrow> memory \<Rightarrow> nat \<Rightarrow> nat \<Rightarrow> bool" where
  "same_outside m m' lo hi = (\<forall>x. x < lo \<or> hi \<le> x \<longrightarrow> m' x = m x)"


text \<open>
  The four cases of coalescing, on the list of blocks: the free block of size \<open>sz\<close>
  between the blocks \<open>pre\<close> and \<open>post\<close> absorbs its predecessor when that is a free
  block (the prologue counts as allocated) and its successor when that is a free block
  (the epilogue counts as allocated).
\<close>

definition prev_free :: "block list \<Rightarrow> bool" where
  "prev_free pre = (pre \<noteq> [] \<and> \<not> snd (last pre))"

definition next_free :: "block list \<Rightarrow> bool" where
  "next_free post = (post \<noteq> [] \<and> \<not> snd (hd post))"

definition coalesce_size :: "block list \<Rightarrow> nat \<Rightarrow> block list \<Rightarrow> nat" where
  "coalesce_size pre sz post =
     (if prev_free pre then fst (last pre) else 0) + sz + (if next_free post then fst (hd post) else 0)"

definition coalesce_blocks :: "block list \<Rightarrow> nat \<Rightarrow> block list \<Rightarrow> block list" where
  "coalesce_blocks pre sz post =
     (if prev_free pre then butlast pre else pre) @ [(coalesce_size pre sz post, False)]
       @ (if next_free post then tl post else post)"

definition coalesce_ptr :: "block list \<Rightarrow> nat \<Rightarrow> nat" where
  "coalesce_ptr pre bp = bp - (if prev_free pre then fst (last pre) else 0)"

text \<open>
  First fit in the words of the specification: the first block, in address order, that
  is free and at least \<open>k\<close> bytes long, or no fit.
\<close>

fun first_fit :: "nat \<Rightarrow> block list \<Rightarrow> nat \<Rightarrow> nat option" where
  "first_fit bp [] k = None"
| "first_fit bp ((sz, a) # bs) k =
     (if \<not> a \<and> k \<le> sz then Some bp else first_fit (bp + sz) bs k)"

text \<open>
  The same search with list functions: the blocks that first fit passes over are the
  allocated ones and the ones shorter than \<open>k\<close>. A block of size \<open>c\<close> that receives a
  request of \<open>a\<close> bytes is split when the rest is at least 16 bytes.
\<close>

definition busy :: "nat \<Rightarrow> block \<Rightarrow> bool" where
  "busy k b = (snd b \<or> fst b < k)"

definition split_block :: "nat \<Rightarrow> nat \<Rightarrow> block list" where
  "split_block c a = (if 16 \<le> c - a then [(a, True), (c - a, False)] else [(c, True)])"

text \<open>
  The effect of a successful \<^verbatim>\<open>mm_malloc\<close> with adjusted size \<open>a\<close> on the list of blocks,
  and the payload address it returns for a heap whose prologue is at \<open>h\<close>: the first
  fit is split in place; without a fit the heap grows by \<open>max a 4096\<close> bytes, the new
  block absorbs a free last block, and the result is split. The request fails when there
  is no fit and the memory system cannot grow by that much.
\<close>

definition malloc_blocks :: "block list \<Rightarrow> nat \<Rightarrow> block list" where
  "malloc_blocks bs a =
     (case dropWhile (busy a) bs of
        [] \<Rightarrow> (if prev_free bs then butlast bs else bs)
                @ split_block (coalesce_size bs (max a 4096) []) a
      | b # post \<Rightarrow> takeWhile (busy a) bs @ split_block (fst b) a @ post)"

definition malloc_ptr :: "nat \<Rightarrow> block list \<Rightarrow> nat \<Rightarrow> nat" where
  "malloc_ptr h bs a =
     h + 8 + total (case dropWhile (busy a) bs of
                      [] \<Rightarrow> (if prev_free bs then butlast bs else bs)
                    | b # post \<Rightarrow> takeWhile (busy a) bs)"

definition malloc_fails :: "heap \<Rightarrow> block list \<Rightarrow> nat \<Rightarrow> bool" where
  "malloc_fails s bs a =
     (dropWhile (busy a) bs = [] \<and> mem_max_addr s < mem_brk s + max a 4096)"

section \<open>Example heaps\<close>

text \<open>
  A memory system as \<^verbatim>\<open>mem_init\<close> leaves it, with an arena of 20 MB that holds zeros
  and an empty heap; the heap after \<^verbatim>\<open>mm_init\<close>; and the state after a call of
  \<^verbatim>\<open>mm_malloc\<close> that returns.
\<close>

definition s0 :: heap where
  "s0 = \<lparr>mem = (\<lambda>_. 0), mem_brk = 0, mem_max_addr = 20971520, heap_listp = 0\<rparr>"

definition heap1 :: heap where
  "heap1 = fst (mm_init s0)"

definition after_malloc :: "heap \<Rightarrow> word32 \<Rightarrow> heap" where
  "after_malloc s n = fst (the (mm_malloc s n))"

text \<open>
  Scenario D of the specification: \<open>p1 = allocate(16); p2 = allocate(16); release(p1);
  release(p2)\<close> on a fresh heap.
\<close>

definition heapD2 :: heap where "heapD2 = after_malloc heap1 16"
definition heapD3 :: heap where "heapD3 = after_malloc heapD2 16"
definition heapD4 :: heap where "heapD4 = mm_free heapD3 16"
definition heapD5 :: heap where "heapD5 = mm_free heapD4 40"

text \<open>
  A third allocation after the first two of scenario D, and the block at \<open>bp\<close> of size
  \<open>sz\<close> marked free without coalescing, as \<^verbatim>\<open>mm_free\<close> does before it calls
  \<^verbatim>\<open>coalesce\<close>.
\<close>

definition heapE :: heap where "heapE = after_malloc heapD3 16"

definition mark_free :: "heap \<Rightarrow> nat \<Rightarrow> nat \<Rightarrow> heap" where
  "mark_free s bp sz = s\<lparr>mem := set_block (mem s) bp sz False\<rparr>"

text \<open>
  A heap with a free block of 24 bytes between allocated blocks:
  \<open>p1 = allocate(8); p2 = allocate(16); p3 = allocate(8); release(p2)\<close>, and then
  \<open>allocate(1)\<close>.
\<close>

definition heapA2 :: heap where "heapA2 = after_malloc heap1 8"
definition heapA3 :: heap where "heapA3 = after_malloc heapA2 16"
definition heapA4 :: heap where "heapA4 = after_malloc heapA3 8"
definition heapA5 :: heap where "heapA5 = mm_free heapA4 32"
definition heapA6 :: heap where "heapA6 = after_malloc heapA5 1"

text \<open>
  Memory systems that cannot grow as far: an arena of 100 bytes, and an arena of 4112
  bytes, which \<^verbatim>\<open>mm_init\<close> fills completely.
\<close>

definition s_small :: heap where
  "s_small = \<lparr>mem = (\<lambda>_. 0), mem_brk = 0, mem_max_addr = 100, heap_listp = 0\<rparr>"

definition s_exact :: heap where
  "s_exact = \<lparr>mem = (\<lambda>_. 0), mem_brk = 0, mem_max_addr = 4112, heap_listp = 0\<rparr>"

definition heapF :: heap where
  "heapF = fst (mm_init s_exact)"


section \<open>Words and bytes\<close>

lemma bit_8_mult: "bit (8 * w :: word32) n \<longleftrightarrow> 3 \<le> n \<and> n < 32 \<and> bit w (n - 3)"
proof -
  have "8 * w = push_bit 3 w" by (simp add: push_bit_eq_mult)
  then show ?thesis by (simp only: bit_push_bit_iff) (auto simp: bit_simps)
qed

lemma bit_7: "bit (7 :: word32) n \<longleftrightarrow> n < 3"
proof -
  have "(7 :: word32) = mask 3" by (simp add: mask_eq_exp_minus_1)
  then show ?thesis by (simp only: bit_mask_iff) auto
qed

lemma bit_1: "bit (1 :: word32) n \<longleftrightarrow> n = 0"
  by (simp add: bit_simps)

lemma size_of_8_mult: "(8 * w OR (if a then 1 else 0)) AND NOT 7 = (8 * w :: word32)"
proof (rule bit_word_eqI)
  fix n assume "n < LENGTH(32)"
  then show "bit ((8 * w OR (if a then 1 else 0)) AND NOT 7) n = bit (8 * w) n"
    by (cases a; simp only: bit_and_iff bit_or_iff bit_not_iff bit_8_mult bit_7 bit_1 if_True if_False bit_0_eq)
       auto
qed

lemma alloc_of_8_mult: "(8 * w OR (if a then 1 else 0)) AND 1 = (if a then 1 else (0 :: word32))"
proof (rule bit_word_eqI)
  fix n assume "n < LENGTH(32)"
  then show "bit ((8 * w OR (if a then 1 else 0)) AND 1) n = bit (if a then 1 else (0 :: word32)) n"
    by (cases a; simp only: bit_and_iff bit_or_iff bit_8_mult bit_1 if_True if_False bit_0_eq)
       auto
qed

lemma size_wd_dvd: "8 dvd unat ((w :: word32) AND NOT 7)"
proof -
  have "(w AND NOT 7) AND mask 3 = 0" 
    by (rule bit_word_eqI) (simp only: bit_and_iff bit_not_iff bit_mask_iff bit_7 bit_0_eq, auto)
  then have "2 ^ 3 dvd unat (w AND NOT 7)" by (simp only: and_mask_dvd_nat)
  then show ?thesis by simp
qed

lemma tag_size: "8 dvd sz \<Longrightarrow> tag sz a AND NOT 7 = of_nat sz"
proof -
  assume "8 dvd sz"
  then obtain k where "sz = 8 * k" by (auto simp: dvd_def)
  then have "(of_nat sz :: word32) = 8 * of_nat k" by simp
  then show ?thesis unfolding tag_def PACK_def by (simp only: size_of_8_mult)
qed

lemma tag_alloc: "8 dvd sz \<Longrightarrow> tag sz a AND 1 = (if a then 1 else 0)"
proof -
  assume "8 dvd sz"
  then obtain k where "sz = 8 * k" by (auto simp: dvd_def)
  then have "(of_nat sz :: word32) = 8 * of_nat k" by simp
  then show ?thesis unfolding tag_def PACK_def by (simp only: alloc_of_8_mult)
qed

lemma unat_of_nat32: "sz < 2 ^ 32 \<Longrightarrow> unat (of_nat sz :: word32) = sz"
  by (simp add: unat_of_nat)

lemma GET_PUT_same: "GET (PUT m p v) p = v"
  unfolding GET_def PUT_def
  apply (rule bit_word_eqI)
  subgoal for n
    apply (cases "n < 8"; cases "n < 16"; cases "n < 24")
    apply (auto simp: bit_simps)
    done
  done

lemma PUT_other: "a < p \<or> p + 4 \<le> a \<Longrightarrow> PUT m p v a = m a"
  by (auto simp: PUT_def)

lemma GET_cong: "m a = m' a \<Longrightarrow> m (a+1) = m' (a+1) \<Longrightarrow> m (a+2) = m' (a+2) \<Longrightarrow> m (a+3) = m' (a+3) \<Longrightarrow> GET m a = GET m' a"
  by (simp add: GET_def)

lemma GET_PUT_other: "q + 4 \<le> p \<or> p + 4 \<le> q \<Longrightarrow> GET (PUT m p v) q = GET m q"
  by (rule GET_cong) (auto simp: PUT_def)


section \<open>The block list in memory\<close>

lemma total_simps [simp]: "total [] = 0" "total (b # bs) = fst b + total bs"
  "total (xs @ ys) = total xs + total ys"
  by (simp_all add: total_def)

lemma tags_at_append:
  "tags_at m bp (xs @ ys) = (tags_at m bp xs \<and> tags_at m (bp + total xs) ys)"
  by (induction xs arbitrary: bp) (auto simp: add.assoc)

lemma sizes_ok_simps [simp]: "sizes_ok []" "sizes_ok (b # bs) = (8 \<le> fst b \<and> 8 dvd fst b \<and> sizes_ok bs)"
  "sizes_ok (xs @ ys) = (sizes_ok xs \<and> sizes_ok ys)"
  by (auto simp: sizes_ok_def)

lemma GET_cong_range:
  "\<forall>a. lo \<le> a \<and> a < hi \<longrightarrow> m' a = m a \<Longrightarrow> lo \<le> p \<Longrightarrow> p + 4 \<le> hi \<Longrightarrow> GET m' p = GET m p"
  by (rule GET_cong) auto

lemma tags_at_cong:
  "\<forall>a. bp - 4 \<le> a \<and> a < bp + total bs - 4 \<longrightarrow> m' a = m a \<Longrightarrow> 4 \<le> bp \<Longrightarrow> sizes_ok bs
   \<Longrightarrow> tags_at m' bp bs = tags_at m bp bs"
proof (induction bs arbitrary: bp)
  case Nil
  then show ?case by simp
next
  case (Cons b bs)
  obtain sz a where b: "b = (sz, a)" by (cases b)
  from Cons.prems have sz: "8 \<le> sz" and ps: "sizes_ok bs" by (simp_all add: b)
  note fr = Cons.prems(1)
  have h: "GET m' (bp - 4) = GET m (bp - 4)"
    using Cons.prems(2) sz by (intro GET_cong_range[OF fr]) (auto simp: b)
  have f: "GET m' (bp + sz - 8) = GET m (bp + sz - 8)"
    using Cons.prems(2) sz by (intro GET_cong_range[OF fr]) (auto simp: b)
  have "\<forall>a. bp + sz - 4 \<le> a \<and> a < bp + sz + total bs - 4 \<longrightarrow> m' a = m a"
    using fr by (auto simp: b add.assoc)
  then have "tags_at m' (bp + sz) bs = tags_at m (bp + sz) bs"
    using ps sz by (intro Cons.IH) auto
  with h f show ?case by (simp add: b)
qed

lemma tags_at_PUT:
  "p + 4 \<le> bp - 4 \<or> bp + total bs - 4 \<le> p \<Longrightarrow> 4 \<le> bp \<Longrightarrow> sizes_ok bs
   \<Longrightarrow> tags_at (PUT m p v) bp bs = tags_at m bp bs"
  by (rule tags_at_cong) (auto simp: PUT_def)

lemma GET_SIZE_tag_word: "GET m p = tag sz a \<Longrightarrow> 8 dvd sz \<Longrightarrow> GET_SIZE m p = of_nat sz"
  unfolding GET_SIZE_def by (simp only: tag_size)

lemma GET_SIZE_tag: "GET m p = tag sz a \<Longrightarrow> 8 dvd sz \<Longrightarrow> sz < 2 ^ 32 \<Longrightarrow> unat (GET_SIZE m p) = sz"
  by (simp only: GET_SIZE_tag_word unat_of_nat32)

lemma GET_ALLOC_tag: "GET m p = tag sz a \<Longrightarrow> 8 dvd sz \<Longrightarrow> GET_ALLOC m p = (if a then 1 else 0)"
  unfolding GET_ALLOC_def by (simp only: tag_alloc)

lemma first_fit_loop:
  "tags_at m bp bs \<Longrightarrow> GET m (bp + total bs - 4) = tag 0 True \<Longrightarrow> sizes_ok bs
   \<Longrightarrow> bp + total bs < 2 ^ 32 \<Longrightarrow> 4 \<le> bp
   \<Longrightarrow> find_fit_loop m asize bp = Some (first_fit bp bs (unat asize))"
proof (induction bs arbitrary: bp)
  case Nil
  then have "GET_SIZE m (HDRP bp) = 0"
    using GET_SIZE_tag_word[of m "bp - 4" 0 True] by (simp add: HDRP_def WSIZE_def)
  then show ?case by (subst find_fit_loop.simps) simp
next
  case (Cons b bs)
  obtain sz a where b: "b = (sz, a)" by (cases b)
  from Cons.prems have sz: "8 \<le> sz" "8 dvd sz" "sz < 2 ^ 32" and hd: "GET m (bp - 4) = tag sz a"
    by (simp_all add: b)
  have us: "unat (GET_SIZE m (HDRP bp)) = sz"
    and ga: "GET_ALLOC m (HDRP bp) = (if a then 1 else 0)"
    using GET_SIZE_tag[OF hd sz(2,3)] GET_ALLOC_tag[OF hd sz(2)] by (simp_all add: HDRP_def WSIZE_def)
  have pos: "0 < GET_SIZE m (HDRP bp)"
    using us sz by (simp add: word_less_nat_alt)
  have le: "asize \<le> GET_SIZE m (HDRP bp) \<longleftrightarrow> unat asize \<le> sz"
    using us by (simp add: word_le_nat_alt)
  have nx: "NEXT_BLKP m bp = bp + sz"
    using us by (simp add: NEXT_BLKP_def HDRP_def)
  have IH: "find_fit_loop m asize (bp + sz) = Some (first_fit (bp + sz) bs (unat asize))"
    using Cons.prems sz by (intro Cons.IH) (auto simp: b add.assoc)
  show ?case
    by (subst find_fit_loop.simps) (simp add: pos le nx IH b ga)
qed


lemma block_ok_sizes_ok: "list_all block_ok bs \<Longrightarrow> sizes_ok bs"
  by (induction bs) (auto simp: block_ok_def)

lemma valid_heap_sizes: "valid_heap s bs \<Longrightarrow> sizes_ok ((8, True) # bs)"
  by (simp add: valid_heap_def block_ok_sizes_ok)

lemma valid_heap_bound: "valid_heap s bs \<Longrightarrow> heap_listp s + 8 + total bs < 2 ^ 32"
  by (simp add: valid_heap_def)

lemma valid_heap_tags: "valid_heap s bs \<Longrightarrow> tags_at (mem s) (heap_listp s) ((8, True) # bs)"
  by (simp add: valid_heap_def)

lemma valid_heap_epilogue:
  "valid_heap s bs \<Longrightarrow> GET (mem s) (heap_listp s + total ((8, True) # bs) - 4) = tag 0 True"
proof -
  assume "valid_heap s bs"
  then have "GET (mem s) (heap_listp s + 4 + total bs) = tag 0 True" by (simp add: valid_heap_def)
  moreover have "heap_listp s + total ((8, True) # bs) - 4 = heap_listp s + 4 + total bs" by simp
  ultimately show ?thesis by (simp only:)
qed

lemma find_fit_valid:
  assumes "valid_heap s bs"
  shows "find_fit s asize = Some (first_fit (heap_listp s + 8) bs (unat asize))"
proof -
  let ?h = "heap_listp s"
  have "4 \<le> ?h" using assms by (simp add: valid_heap_def)
  moreover have "?h + total ((8, True) # bs) < 2 ^ 32"
    using valid_heap_bound[OF assms] by simp
  ultimately
  have "find_fit_loop (mem s) asize ?h = Some (first_fit ?h ((8, True) # bs) (unat asize))"
    using valid_heap_sizes[OF assms] valid_heap_tags[OF assms] valid_heap_epilogue[OF assms]
    by (intro first_fit_loop)
  then show ?thesis by (simp add: find_fit_def)
qed


section \<open>Frames\<close>

lemma same_outside_refl [simp]: "same_outside m m lo hi"
  by (simp add: same_outside_def)

lemma same_outside_mono:
  "same_outside m m' lo hi \<Longrightarrow> lo' \<le> lo \<Longrightarrow> hi \<le> hi' \<Longrightarrow> same_outside m m' lo' hi'"
  by (auto simp: same_outside_def)

lemma same_outside_trans:
  "same_outside m m' lo hi \<Longrightarrow> same_outside m' m'' lo hi \<Longrightarrow> same_outside m m'' lo hi"
  by (auto simp: same_outside_def)

lemma same_outside_PUT: "lo \<le> p \<Longrightarrow> p + 4 \<le> hi \<Longrightarrow> same_outside m (PUT m p v) lo hi"
  by (auto simp: same_outside_def PUT_def)

lemma same_outside_GET:
  "same_outside m m' lo hi \<Longrightarrow> q + 4 \<le> lo \<or> hi \<le> q \<Longrightarrow> GET m' q = GET m q"
  by (rule GET_cong) (auto simp: same_outside_def)

lemma same_outside_tags:
  assumes "same_outside m m' lo hi" "bp + total bs \<le> lo + 4 \<or> hi + 4 \<le> bp" "4 \<le> bp" "sizes_ok bs"
  shows "tags_at m' bp bs = tags_at m bp bs"
proof (rule tags_at_cong)
  show "\<forall>a. bp - 4 \<le> a \<and> a < bp + total bs - 4 \<longrightarrow> m' a = m a"
    using assms(1,2,3) by (auto simp: same_outside_def)
qed (use assms in auto)

lemma set_block_frame:
  "8 \<le> sz \<Longrightarrow> 4 \<le> bp \<Longrightarrow> same_outside m (set_block m bp sz a) (bp - 4) (bp + sz - 4)"
  unfolding set_block_def
  by (rule same_outside_trans[where m' = "PUT m (bp - 4) (tag sz a)"]; rule same_outside_PUT) auto

lemma set_block_payload:
  "bp \<le> x \<Longrightarrow> x < bp + sz - 8 \<Longrightarrow> 4 \<le> bp \<Longrightarrow> set_block m bp sz a x = m x"
  unfolding set_block_def by (subst PUT_other, linarith)+ simp

lemma set_block_tags:
  assumes "8 \<le> sz" "4 \<le> bp"
  shows "GET (set_block m bp sz a) (bp - 4) = tag sz a" "GET (set_block m bp sz a) (bp + sz - 8) = tag sz a"
proof -
  have "GET (set_block m bp sz a) (bp - 4) = GET (PUT m (bp - 4) (tag sz a)) (bp - 4)"
    unfolding set_block_def using assms by (intro GET_PUT_other) auto
  then show "GET (set_block m bp sz a) (bp - 4) = tag sz a" by (simp add: GET_PUT_same)
  show "GET (set_block m bp sz a) (bp + sz - 8) = tag sz a"
    by (simp add: set_block_def GET_PUT_same)
qed

text \<open>Replacing a segment of the block list.\<close>

lemma tags_replace:
  assumes t: "tags_at m h (A @ X @ B)" and ok: "sizes_ok A" "sizes_ok B" and h: "4 \<le> h"
    and fr: "same_outside m m' (h + total A - 4) (h + total A + total X - 4)"
    and new: "tags_at m' (h + total A) Y" and tot: "total Y = total X"
    and pos: "A \<noteq> [] \<or> 4 \<le> total X"
  shows "tags_at m' h (A @ Y @ B)"
proof -
  from t have tA: "tags_at m h A" and tB: "tags_at m (h + total A + total X) B"
    by (simp_all add: tags_at_append)
  have "tags_at m' h A = tags_at m h A"
    using fr h ok(1) by (intro same_outside_tags[OF fr]) auto
  moreover have "tags_at m' (h + total A + total X) B = tags_at m (h + total A + total X) B"
    using fr h ok(2) by (intro same_outside_tags[OF fr]) auto
  ultimately show ?thesis using tA tB new tot by (simp add: tags_at_append)
qed


section \<open>place\<close>

lemma le16_of_nat: "n < 2 ^ 32 \<Longrightarrow> (16 \<le> (of_nat n :: word32)) = (16 \<le> n)"
  by (simp add: word_le_nat_alt unat_of_nat32)

lemma tag_PACK: "PACK (of_nat n) 1 = tag n True" "PACK (of_nat n) 0 = tag n False"
  by (simp_all add: tag_def)

lemma place_eq:
  assumes hd: "GET (mem s) (bp - 4) = tag c False"
    and c: "8 dvd c" "c < 2 ^ 32" and a: "a = unat asize" "8 dvd a" "8 \<le> a" "a \<le> c" and bp: "4 \<le> bp"
  shows "place s bp asize =
     (if 16 \<le> c - a then
        s\<lparr>mem := PUT (PUT (PUT (PUT (mem s) (bp - 4) (tag a True)) (bp + a - 8) (tag a True))
                    (bp + a - 4) (tag (c - a) False)) (bp + c - 8) (tag (c - a) False)\<rparr>
      else s\<lparr>mem := PUT (PUT (mem s) (bp - 4) (tag c True)) (bp + c - 8) (tag c True)\<rparr>)"
proof -
  let ?m = "mem s"
  have cs: "GET_SIZE ?m (HDRP bp) = of_nat c"
    using GET_SIZE_tag_word[OF hd c(1)] by (simp add: HDRP_def WSIZE_def)
  have as: "asize = of_nat a" by (simp add: a)
  have a32: "a < 2 ^ 32" using a(4) c(2) by simp
  have diff: "(of_nat c :: word32) - asize = of_nat (c - a)"
    using a(4) by (simp add: as)
  have cmp: "(16 \<le> (of_nat (c - a) :: word32)) = (16 \<le> c - a)"
    using c(2) by (simp add: le16_of_nat)
  have p1: "PACK asize 1 = tag a True" and p0: "PACK (of_nat (c - a)) 0 = tag (c - a) False"
    and pc: "PACK (of_nat c) 1 = tag c True"
    by (simp_all add: as tag_PACK)
  show ?thesis
  proof (cases "16 \<le> c - a")
    case True
    define m1 where "m1 = PUT ?m (bp - 4) (tag a True)"
    define m2 where "m2 = PUT m1 (bp + a - 8) (tag a True)"
    define m3 where "m3 = PUT m2 (bp + a - 4) (tag (c - a) False)"
    have g1: "GET m1 (bp - 4) = tag a True" by (simp add: m1_def GET_PUT_same)
    have f1: "FTRP m1 bp = bp + a - 8"
      using GET_SIZE_tag[OF g1 a(2) a32] by (simp add: FTRP_def HDRP_def WSIZE_def DSIZE_def)
    have g2: "GET m2 (bp - 4) = tag a True"
      unfolding m2_def using a(3) bp by (subst GET_PUT_other) (auto simp: g1)
    have n2: "NEXT_BLKP m2 bp = bp + a"
      using GET_SIZE_tag[OF g2 a(2) a32] by (simp add: NEXT_BLKP_def WSIZE_def)
    have g3: "GET m3 (bp + a - 4) = tag (c - a) False" by (simp add: m3_def GET_PUT_same)
    have d8: "8 dvd c - a" using c(1) a(2) a(4) by (simp add: dvd_diff_nat)
    have "unat (GET_SIZE m3 (bp + a - 4)) = c - a"
      using GET_SIZE_tag[OF g3 d8] c(2) by simp
    then have f3: "FTRP m3 (bp + a) = bp + c - 8"
      using a(4) by (simp add: FTRP_def HDRP_def WSIZE_def DSIZE_def)
    show ?thesis
      unfolding place_def Let_def cs diff cmp p1 p0
      using True
      by (simp add: m1_def[symmetric] f1 m2_def[symmetric] n2 HDRP_def WSIZE_def m3_def[symmetric] f3)
  next
    case False
    define m1 where "m1 = PUT ?m (bp - 4) (tag c True)"
    have g1: "GET m1 (bp - 4) = tag c True" by (simp add: m1_def GET_PUT_same)
    have f1: "FTRP m1 bp = bp + c - 8"
      using GET_SIZE_tag[OF g1 c] by (simp add: FTRP_def HDRP_def WSIZE_def DSIZE_def)
    show ?thesis
      unfolding place_def Let_def cs diff cmp pc
      using False
      by (simp add: HDRP_def WSIZE_def m1_def[symmetric] f1)
  qed
qed



lemma place_set_block:
  assumes hd: "GET (mem s) (bp - 4) = tag c False"
    and c: "8 dvd c" "c < 2 ^ 32" and a: "a = unat asize" "8 dvd a" "8 \<le> a" "a \<le> c" and bp: "4 \<le> bp"
  shows "place s bp asize =
     (if 16 \<le> c - a then s\<lparr>mem := set_block (set_block (mem s) bp a True) (bp + a) (c - a) False\<rparr>
      else s\<lparr>mem := set_block (mem s) bp c True\<rparr>)"
proof -
  have "bp + a + (c - a) - 8 = bp + c - 8" using a(4) by simp
  then show ?thesis
    by (simp add: place_eq[OF assms] set_block_def)
qed

lemma place_tags:
  assumes t: "tags_at (mem s) h (A @ (c, False) # B)"
    and ok: "sizes_ok (A @ (c, False) # B)"
    and h: "4 \<le> h" and bound: "h + total A + c + total B < 2 ^ 32"
    and bp: "bp = h + total A" and a: "a = unat asize" "8 dvd a" "8 \<le> a" "a \<le> c"
  shows "tags_at (mem (place s bp asize)) h
           (A @ (if 16 \<le> c - a then [(a, True), (c - a, False)] else [(c, True)]) @ B)"
    and "same_outside (mem s) (mem (place s bp asize)) (bp - 4) (bp + c - 4)"
proof -
  let ?m = "mem s"
  let ?Y = "if 16 \<le> c - a then [(a, True), (c - a, False)] else [(c, True)]"
  from ok have okA: "sizes_ok A" and okB: "sizes_ok B" and c: "8 \<le> c" "8 dvd c" by simp_all
  from bound have c32: "c < 2 ^ 32" by simp
  have bp4: "4 \<le> bp" using h bp by simp
  from t have hd: "GET ?m (bp - 4) = tag c False" by (simp add: tags_at_append bp)
  note eq = place_set_block[OF hd c(2) c32 a bp4]
  have fr: "same_outside ?m (mem (place s bp asize)) (bp - 4) (bp + c - 4)"
    and new: "tags_at (mem (place s bp asize)) bp ?Y"
  proof -
    show "same_outside ?m (mem (place s bp asize)) (bp - 4) (bp + c - 4)"
    proof (cases "16 \<le> c - a")
      case True
      let ?m1 = "set_block ?m bp a True"
      have "same_outside ?m ?m1 (bp - 4) (bp + c - 4)"
        using a True bp4 by (intro same_outside_mono[OF set_block_frame]) auto
      moreover have "same_outside ?m1 (set_block ?m1 (bp + a) (c - a) False) (bp - 4) (bp + c - 4)"
        using a True bp4 by (intro same_outside_mono[OF set_block_frame]) auto
      ultimately show ?thesis using True by (simp add: eq) (rule same_outside_trans)
    next
      case False
      then show ?thesis using c bp4 by (simp add: eq set_block_frame)
    qed
    show "tags_at (mem (place s bp asize)) bp ?Y"
    proof (cases "16 \<le> c - a")
      case True
      let ?m1 = "set_block ?m bp a True"
      let ?m2 = "set_block ?m1 (bp + a) (c - a) False"
      have f2: "same_outside ?m1 ?m2 (bp + a - 4) (bp + a + (c - a) - 4)"
        using True bp4 by (intro set_block_frame) auto
      have "GET ?m2 (bp - 4) = GET ?m1 (bp - 4)"
        using a bp4 by (intro same_outside_GET[OF f2]) auto
      moreover have "GET ?m2 (bp + a - 8) = GET ?m1 (bp + a - 8)"
        using a bp4 by (intro same_outside_GET[OF f2]) auto
      moreover have "GET ?m2 (bp + a - 4) = tag (c - a) False" "GET ?m2 (bp + a + (c - a) - 8) = tag (c - a) False"
        using set_block_tags[of "c - a" "bp + a" ?m1 False] True bp4 by simp_all
      ultimately show ?thesis
        using True set_block_tags[of a bp ?m True] a bp4 by (simp add: eq)
    next
      case False
      then show ?thesis using set_block_tags[of c bp ?m True] c bp4 by (simp add: eq)
    qed
  qed
  show "same_outside (mem s) (mem (place s bp asize)) (bp - 4) (bp + c - 4)" by (rule fr)
  have "tags_at (mem (place s bp asize)) h (A @ ?Y @ B)"
  proof (rule tags_replace[where X = "[(c, False)]" and m = ?m])
    show "tags_at ?m h (A @ [(c, False)] @ B)" using t by simp
    show "same_outside ?m (mem (place s bp asize)) (h + total A - 4) (h + total A + total [(c, False)] - 4)"
      using fr by (simp add: bp)
    show "tags_at (mem (place s bp asize)) (h + total A) ?Y" using new by (simp add: bp)
    show "total ?Y = total [(c, False)]" using a by simp
  qed (use okA okB h c in auto)
  then show "tags_at (mem (place s bp asize)) h (A @ ?Y @ B)" .
qed


lemma list_all_block_ok_append [simp]:
  "list_all block_ok (xs @ ys) = (list_all block_ok xs \<and> list_all block_ok ys)"
  by simp

lemma valid_heap_replace:
  assumes v: "valid_heap s (pre @ X @ post)"
    and same: "heap_listp s' = heap_listp s" "mem_brk s' = mem_brk s" "mem_max_addr s' = mem_max_addr s"
    and b: "b = heap_listp s + 8 + total pre"
    and fr: "same_outside (mem s) (mem s') (b - 4) (b + total X - 4)"
    and new: "tags_at (mem s') b Y" and tot: "total Y = total X" and okY: "list_all block_ok Y"
  shows "valid_heap s' (pre @ Y @ post)"
proof -
  let ?h = "heap_listp s"
  let ?A = "(8, True) # pre"
  from v have h: "8 \<le> ?h" "8 dvd ?h" and ok: "list_all block_ok pre" "list_all block_ok post"
    and t: "tags_at (mem s) ?h (?A @ X @ post)"
    and e: "GET (mem s) (?h + 4 + total (pre @ X @ post)) = tag 0 True"
    and brk: "mem_brk s = ?h + 8 + total (pre @ X @ post)" "mem_brk s \<le> mem_max_addr s"
      "mem_max_addr s < 2 ^ 32"
    by (simp_all add: valid_heap_def)
  have bA: "b = ?h + total ?A" by (simp add: b)
  have "tags_at (mem s') ?h (?A @ Y @ post)"
  proof (rule tags_replace[where X = X and m = "mem s"])
    show "tags_at (mem s) ?h (?A @ X @ post)" by (rule t)
    show "same_outside (mem s) (mem s') (?h + total ?A - 4) (?h + total ?A + total X - 4)"
      using fr by (simp only: bA)
    show "tags_at (mem s') (?h + total ?A) Y" using new by (simp only: bA)
  qed (use ok h tot in \<open>auto simp: block_ok_sizes_ok\<close>)
  moreover have "GET (mem s') (?h + 4 + total (pre @ Y @ post)) = tag 0 True"
  proof -
    have "GET (mem s') (?h + 4 + total (pre @ X @ post)) = GET (mem s) (?h + 4 + total (pre @ X @ post))"
      by (rule same_outside_GET[OF fr]) (simp add: b)
    then show ?thesis using e tot by simp
  qed
  ultimately show ?thesis
    using h ok okY brk tot by (simp add: valid_heap_def same)
qed

lemma place_fields [simp]:
  "heap_listp (place s bp asize) = heap_listp s" "mem_brk (place s bp asize) = mem_brk s"
  "mem_max_addr (place s bp asize) = mem_max_addr s"
  by (simp_all add: place_def Let_def)

lemma valid_heap_block:
  assumes "valid_heap s (pre @ (c, al) # post)" "bp = heap_listp s + 8 + total pre"
  shows "GET (mem s) (bp - 4) = tag c al" "GET (mem s) (bp + c - 8) = tag c al"
    "16 \<le> c" "8 dvd c" "c < 2 ^ 32" "16 \<le> bp" "8 dvd bp"
proof -
  from assms(1) have t: "tags_at (mem s) (heap_listp s) (((8, True) # pre) @ (c, al) # post)"
    and ok: "list_all block_ok pre" "block_ok (c, al)" and h: "8 \<le> heap_listp s" "8 dvd heap_listp s"
    and bd: "heap_listp s + 8 + total (pre @ (c, al) # post) < 2 ^ 32"
    by (simp_all add: valid_heap_def)
  from t show "GET (mem s) (bp - 4) = tag c al" "GET (mem s) (bp + c - 8) = tag c al"
    unfolding tags_at_append by (simp_all add: assms(2))
  from ok show "16 \<le> c" "8 dvd c" by (simp_all add: block_ok_def)
  from bd show "c < 2 ^ 32" by simp
  from h show "16 \<le> bp" by (simp add: assms(2))
  have "8 dvd total pre" using ok(1) by (induction pre) (auto simp: block_ok_def)
  then show "8 dvd bp" using h by (simp add: assms(2))
qed

lemma place_valid:
  assumes v: "valid_heap s (pre @ (c, False) # post)" and bp: "bp = heap_listp s + 8 + total pre"
    and a: "a = unat asize" "8 dvd a" "16 \<le> a" "a \<le> c"
  shows "valid_heap (place s bp asize)
           (pre @ (if 16 \<le> c - a then [(a, True), (c - a, False)] else [(c, True)]) @ post)"
    and "same_outside (mem s) (mem (place s bp asize)) (bp - 4) (bp + c - 4)"
proof -
  let ?h = "heap_listp s"
  let ?A = "(8, True) # pre"
  let ?Y = "if 16 \<le> c - a then [(a, True), (c - a, False)] else [(c, True)]"
  note blk = valid_heap_block[OF v bp]
  have t: "tags_at (mem s) ?h (?A @ (c, False) # post)" using v by (simp add: valid_heap_def)
  have ok: "sizes_ok (?A @ (c, False) # post)" using valid_heap_sizes[OF v] by simp
  have bd: "?h + total ?A + c + total post < 2 ^ 32" using valid_heap_bound[OF v] by simp
  have h4: "4 \<le> ?h" using v by (simp add: valid_heap_def)
  have bpA: "bp = ?h + total ?A" by (simp add: bp)
  have a8: "8 \<le> a" using a(3) by simp
  note pt = place_tags[OF t ok h4 bd bpA a(1,2) a8 a(4)]
  show fr: "same_outside (mem s) (mem (place s bp asize)) (bp - 4) (bp + c - 4)" by (rule pt(2))
  have new: "tags_at (mem (place s bp asize)) bp ?Y"
    using pt(1) unfolding tags_at_append by (simp add: bpA)
  have okY: "list_all block_ok ?Y"
    using a blk(3,4) by (auto simp: block_ok_def dvd_diff_nat)
  show "valid_heap (place s bp asize) (pre @ ?Y @ post)"
  proof (rule valid_heap_replace[where X = "[(c, False)]" and s = s and b = bp])
    show "valid_heap s (pre @ [(c, False)] @ post)" using v by simp
    show "same_outside (mem s) (mem (place s bp asize)) (bp - 4) (bp + total [(c, False)] - 4)"
      using fr by simp
    show "total ?Y = total [(c, False)]" using a by simp
  qed (use bp new okY in simp_all)
qed


section \<open>coalesce\<close>

lemma PUT_commute: "p + 4 \<le> q \<or> q + 4 \<le> p \<Longrightarrow> PUT (PUT m p v) q w = PUT (PUT m q w) p v"
  by (rule ext) (auto simp: PUT_def)

lemma of_nat_add32: "(of_nat a :: word32) + of_nat b = of_nat (a + b)"
  by simp

text \<open>What \<open>coalesce\<close> reads around a block.\<close>

lemma coalesce_reads:
  assumes t: "tags_at m h (P @ [(psz, pa), (sz, al)] @ N)"
    and e: "GET m (h + total P + psz + sz + total N - 4) = tag 0 True"
    and ok: "sizes_ok (P @ [(psz, pa), (sz, al)] @ N)"
    and h: "4 \<le> h" and bound: "h + total P + psz + sz + total N < 2 ^ 32"
    and pb: "pb = h + total P" and bp: "bp = pb + psz"
  shows "PREV_BLKP m bp = pb" "FTRP m pb = bp - 8"
    "GET_ALLOC m (bp - 8) = (if pa then 1 else 0)"
    "NEXT_BLKP m bp = bp + sz" "FTRP m bp = bp + sz - 8"
    "GET_SIZE m (bp - 4) = of_nat sz"
    "GET_SIZE m (pb - 4) = of_nat psz"
    "GET_ALLOC m (bp + sz - 4) = (if N = [] \<or> snd (hd N) then 1 else 0)"
    "N \<noteq> [] \<Longrightarrow> GET_SIZE m (bp + sz - 4) = of_nat (fst (hd N))"
    "N \<noteq> [] \<Longrightarrow> FTRP m (bp + sz) = bp + sz + fst (hd N) - 8"
    "N \<noteq> [] \<Longrightarrow> GET_SIZE m (bp + sz + fst (hd N) - 8) = of_nat (fst (hd N))"
proof -
  from ok have p: "8 \<le> psz" "8 dvd psz" and s: "8 \<le> sz" "8 dvd sz" and okN: "sizes_ok N" by simp_all
  from bound have p32: "psz < 2 ^ 32" and s32: "sz < 2 ^ 32" by simp_all
  from t have t': "tags_at m pb ((psz, pa) # (sz, al) # N)"
    by (simp add: tags_at_append pb add.assoc)
  have a1: "pb + psz - 8 = bp - 8" "pb + psz - 4 = bp - 4" "pb + psz + sz - 8 = bp + sz - 8"
    "pb + psz + sz = bp + sz" 
    by (simp_all add: bp)
  from t' have ph: "GET m (pb - 4) = tag psz pa" and pf: "GET m (bp - 8) = tag psz pa"
    and sh: "GET m (bp - 4) = tag sz al" and sf: "GET m (bp + sz - 8) = tag sz al"
    and tN: "tags_at m (bp + sz) N"
    by (simp_all add: a1)
  have "bp - psz = pb" by (simp add: bp)
  then show prev: "PREV_BLKP m bp = pb"
    using GET_SIZE_tag[OF pf p(2) p32] by (simp add: PREV_BLKP_def DSIZE_def)
  show "FTRP m pb = bp - 8"
    using GET_SIZE_tag[OF ph p(2) p32] by (simp add: FTRP_def HDRP_def WSIZE_def DSIZE_def a1)
  show "GET_ALLOC m (bp - 8) = (if pa then 1 else 0)" by (rule GET_ALLOC_tag[OF pf p(2)])
  show "NEXT_BLKP m bp = bp + sz"
    using GET_SIZE_tag[OF sh s(2) s32] by (simp add: NEXT_BLKP_def WSIZE_def)
  show "FTRP m bp = bp + sz - 8"
    using GET_SIZE_tag[OF sh s(2) s32] by (simp add: FTRP_def HDRP_def WSIZE_def DSIZE_def)
  show "GET_SIZE m (bp - 4) = of_nat sz"
    by (rule GET_SIZE_tag_word[OF sh s(2)])
  show "GET_SIZE m (pb - 4) = of_nat psz"
    by (rule GET_SIZE_tag_word[OF ph p(2)])
  show "GET_ALLOC m (bp + sz - 4) = (if N = [] \<or> snd (hd N) then 1 else 0)"
  proof (cases N)
    case Nil
    have "h + total P + psz + sz + total N - 4 = bp + sz - 4" by (simp add: Nil bp pb)
    with e have "GET m (bp + sz - 4) = tag 0 True" by simp
    from GET_ALLOC_tag[OF this] show ?thesis by (simp add: Nil)
  next
    case (Cons n N')
    obtain nsz na where n: "n = (nsz, na)" by (cases n)
    from tN have "GET m (bp + sz - 4) = tag nsz na" by (simp add: Cons n)
    moreover have "8 dvd nsz" using okN by (simp add: Cons n)
    ultimately show ?thesis using GET_ALLOC_tag by (simp add: Cons n)
  qed
  {
    assume "N \<noteq> []"
    then obtain nsz na N' where N: "N = (nsz, na) # N'" by (cases N) auto
    from tN have nh: "GET m (bp + sz - 4) = tag nsz na" and nf: "GET m (bp + sz + nsz - 8) = tag nsz na"
      by (simp_all add: N)
    have n: "8 dvd nsz" "8 \<le> nsz" using okN by (simp_all add: N)
    have n32: "nsz < 2 ^ 32" using bound by (simp add: N)
    show "GET_SIZE m (bp + sz - 4) = of_nat (fst (hd N))"
      using GET_SIZE_tag_word[OF nh n(1)] by (simp add: N)
    show "FTRP m (bp + sz) = bp + sz + fst (hd N) - 8"
      using GET_SIZE_tag[OF nh n(1) n32] by (simp add: FTRP_def HDRP_def WSIZE_def DSIZE_def N)
    show "GET_SIZE m (bp + sz + fst (hd N) - 8) = of_nat (fst (hd N))"
      using GET_SIZE_tag_word[OF nf n(1)] by (simp add: N)
  }
qed


lemma PREV_BLKP_cong: "GET m' (bp - 8) = GET m (bp - 8) \<Longrightarrow> PREV_BLKP m' bp = PREV_BLKP m bp"
  by (simp add: PREV_BLKP_def GET_SIZE_def DSIZE_def)

lemma NEXT_BLKP_cong: "GET m' (bp - 4) = GET m (bp - 4) \<Longrightarrow> NEXT_BLKP m' bp = NEXT_BLKP m bp"
  by (simp add: NEXT_BLKP_def GET_SIZE_def WSIZE_def)

lemma FTRP_cong: "GET m' (bp - 4) = GET m (bp - 4) \<Longrightarrow> FTRP m' bp = FTRP m bp"
  by (simp add: FTRP_def HDRP_def GET_SIZE_def WSIZE_def)

lemma FTRP_PUT_hdr: "8 dvd n \<Longrightarrow> n < 2 ^ 32 \<Longrightarrow> FTRP (PUT m (bp - 4) (tag n a)) bp = bp + n - 8"
  using GET_SIZE_tag[OF GET_PUT_same, of n m "bp - 4" a]
  by (simp add: FTRP_def HDRP_def WSIZE_def DSIZE_def)

lemma coalesce_eq:
  assumes t: "tags_at (mem s) h (P @ [(psz, pa), (sz, al)] @ N)"
    and e: "GET (mem s) (h + total P + psz + sz + total N - 4) = tag 0 True"
    and ok: "sizes_ok (P @ [(psz, pa), (sz, al)] @ N)"
    and h: "4 \<le> h" and bound: "h + total P + psz + sz + total N < 2 ^ 32"
    and pb: "pb = h + total P" and bp: "bp = pb + psz"
    and nf: "nf = (N \<noteq> [] \<and> \<not> snd (hd N))" and nsz: "nsz = fst (hd N)"
  shows "coalesce s bp =
     (if pa \<and> \<not> nf then (s, bp)
      else if pa then (s\<lparr>mem := set_block (mem s) bp (sz + nsz) False\<rparr>, bp)
      else if \<not> nf then (s\<lparr>mem := set_block (mem s) pb (psz + sz) False\<rparr>, pb)
      else (s\<lparr>mem := set_block (mem s) pb (psz + sz + nsz) False\<rparr>, pb))"
proof -
  let ?m = "mem s"
  note r = coalesce_reads[OF t e ok h bound pb bp]
  note rd = r(1-8) HDRP_def WSIZE_def
  from ok have p: "8 \<le> psz" "8 dvd psz" and sz: "8 \<le> sz" "8 dvd sz" and okN: "sizes_ok N" by simp_all
  have pb4: "4 \<le> pb" using h pb by simp
  have bp4: "12 \<le> bp" using pb4 p bp by simp
  show ?thesis
  proof (cases nf)
    case False
    note nnf = False
    then have na: "N = [] \<or> snd (hd N)" by (auto simp: nf)
    show ?thesis
    proof (cases pa)
      case True
      then show ?thesis using nnf na by (simp add: coalesce_def Let_def rd)
    next
      case False
      define t where "t = tag (psz + sz) False"
      have pk: "PACK (of_nat sz + of_nat psz) 0 = t" by (simp add: t_def tag_def ac_simps)
      let ?m1 = "PUT ?m (bp + sz - 8) t"
      have g1: "GET ?m1 (bp - 8) = GET ?m (bp - 8)"
        using sz bp4 by (intro GET_PUT_other) auto
      have pv1: "PREV_BLKP ?m1 bp = pb" using PREV_BLKP_cong[OF g1] r(1) by simp
      let ?m2 = "PUT ?m1 (pb - 4) t"
      have "GET ?m2 (bp - 8) = GET ?m1 (bp - 8)"
        using p bp pb4 by (intro GET_PUT_other) auto
      with g1 have "GET ?m2 (bp - 8) = GET ?m (bp - 8)" by simp
      from PREV_BLKP_cong[OF this] have pv2: "PREV_BLKP ?m2 bp = pb" using r(1) by simp
      have "?m2 = PUT (PUT ?m (pb - 4) t) (bp + sz - 8) t"
        using sz p bp pb4 by (intro PUT_commute) auto
      moreover have "pb + (psz + sz) - 8 = bp + sz - 8" by (simp add: bp)
      ultimately have m2: "?m2 = set_block ?m pb (psz + sz) False" by (simp add: set_block_def t_def)
      show ?thesis
        using False nnf na
        by (simp add: coalesce_def Let_def rd pk pv1 pv2 pv2[unfolded m2] m2)
    qed
  next
    case True
    note nnf = True
    then have N: "N \<noteq> []" and na: "\<not> snd (hd N)" by (simp_all add: nf)
    then have n: "8 \<le> nsz" "8 dvd nsz" using okN by (cases N; simp add: nsz)+
    have n32: "sz + nsz < 2 ^ 32" "psz + sz + nsz < 2 ^ 32" using bound N by (cases N; simp add: nsz)+
    note rn = r(9)[OF N, folded nsz] r(10)[OF N, folded nsz] r(11)[OF N, folded nsz]
    show ?thesis
    proof (cases pa)
      case True
      define t where "t = tag (sz + nsz) False"
      have pk: "PACK (of_nat sz + of_nat nsz) 0 = t" by (simp add: t_def tag_def ac_simps)
      have d: "8 dvd sz + nsz" using n sz by simp
      have f: "FTRP (PUT ?m (bp - 4) t) bp = bp + (sz + nsz) - 8"
        unfolding t_def by (rule FTRP_PUT_hdr[OF d n32(1)])
      have m2: "PUT (PUT ?m (bp - 4) t) (bp + (sz + nsz) - 8) t = set_block ?m bp (sz + nsz) False"
        by (simp add: set_block_def t_def)
      show ?thesis
        using True nnf N na
        by (simp add: coalesce_def Let_def rd rn pk f m2)
    next
      case False
      define t where "t = tag (psz + sz + nsz) False"
      have pk: "PACK (of_nat sz + (of_nat psz + of_nat nsz)) 0 = t" by (simp add: t_def tag_def ac_simps)
      let ?m1 = "PUT ?m (pb - 4) t"
      have g1: "GET ?m1 (bp - 4) = GET ?m (bp - 4)"
        using p bp pb4 by (intro GET_PUT_other) auto
      have nx1: "NEXT_BLKP ?m1 bp = bp + sz" using NEXT_BLKP_cong[OF g1] r(4) by simp
      have g2: "GET ?m1 (bp + sz - 4) = GET ?m (bp + sz - 4)"
        using p bp pb4 by (intro GET_PUT_other) auto
      have f1: "FTRP ?m1 (bp + sz) = bp + sz + nsz - 8"
        using FTRP_cong[of ?m1 "bp + sz" ?m] g2 rn(2) by simp
      let ?m2 = "PUT ?m1 (bp + sz + nsz - 8) t"
      have "GET ?m2 (bp - 8) = GET ?m1 (bp - 8)"
        using bp4 n sz by (intro GET_PUT_other) auto
      moreover have "GET ?m1 (bp - 8) = GET ?m (bp - 8)"
        using p bp pb4 by (intro GET_PUT_other) auto
      ultimately have "GET ?m2 (bp - 8) = GET ?m (bp - 8)" by simp
      from PREV_BLKP_cong[OF this] have pv2: "PREV_BLKP ?m2 bp = pb" using r(1) by simp
      have "pb + (psz + sz + nsz) - 8 = bp + sz + nsz - 8" by (simp add: bp)
      then have m2: "?m2 = set_block ?m pb (psz + sz + nsz) False" by (simp add: set_block_def t_def)
      show ?thesis
        using False nnf N na
        by (simp add: coalesce_def Let_def rd rn pk nx1 f1 pv2 pv2[unfolded m2] m2)
    qed
  qed
qed


lemma block_ok_total: "list_all block_ok X \<Longrightarrow> 8 dvd total X \<and> (X \<noteq> [] \<longrightarrow> 16 \<le> total X)"
  by (induction X) (auto simp: block_ok_def)

lemma merge_valid:
  assumes v: "valid_heap s (A @ X @ B)" and b: "b = heap_listp s + 8 + total A" and X: "X \<noteq> []"
  shows "valid_heap (s\<lparr>mem := set_block (mem s) b (total X) False\<rparr>) (A @ [(total X, False)] @ B)"
proof -
  from v have okX: "list_all block_ok X" by (simp add: valid_heap_def)
  from block_ok_total[OF this] X have tX: "8 dvd total X" "16 \<le> total X" by simp_all
  have b4: "4 \<le> b" by (simp add: b)
  show ?thesis
  proof (rule valid_heap_replace[OF v _ _ _ b])
    show "same_outside (mem s) (mem (s\<lparr>mem := set_block (mem s) b (total X) False\<rparr>)) (b - 4) (b + total X - 4)"
      using set_block_frame[of "total X" b "mem s" False] tX b4 by simp
    show "tags_at (mem (s\<lparr>mem := set_block (mem s) b (total X) False\<rparr>)) b [(total X, False)]"
      using set_block_tags[of "total X" b "mem s" False] tX b4 by simp
    show "list_all block_ok [(total X, False)]" using tX by (simp add: block_ok_def)
  qed simp_all
qed

lemma coalesce_valid:
  assumes v: "valid_heap s (pre @ (sz, False) # post)" and bp: "bp = heap_listp s + 8 + total pre"
  shows "coalesce s bp =
           (if \<not> prev_free pre \<and> \<not> next_free post then s
            else s\<lparr>mem := set_block (mem s) (coalesce_ptr pre bp) (coalesce_size pre sz post) False\<rparr>,
            coalesce_ptr pre bp)"
    and "valid_heap (fst (coalesce s bp)) (coalesce_blocks pre sz post)"
    and "coalesce_ptr pre bp = heap_listp s + 8 + total (if prev_free pre then butlast pre else pre)"
proof -
  let ?h = "heap_listp s"
  define P where "P = butlast ((8, True) # pre)"
  define pv where "pv = last ((8, True) # pre)"
  define nf where "nf = next_free post"
  define nsz where "nsz = fst (hd post)"
  have L: "(8, True) # pre = P @ [pv]" by (simp add: P_def pv_def del: butlast.simps last.simps)
  have pa: "snd pv = (\<not> prev_free pre)" by (simp add: pv_def prev_free_def)
  have tP: "8 + total pre = total P + fst pv"
    using arg_cong[OF L, of total] by simp
  have LL: "(8, True) # pre @ (sz, False) # post = P @ [(fst pv, snd pv), (sz, False)] @ post"
  proof -
    have "(8, True) # pre @ (sz, False) # post = ((8, True) # pre) @ (sz, False) # post" by simp
    also have "\<dots> = (P @ [pv]) @ (sz, False) # post" by (simp only: L)
    finally show ?thesis by simp
  qed
  have t: "tags_at (mem s) ?h (P @ [(fst pv, snd pv), (sz, False)] @ post)"
    using valid_heap_tags[OF v] unfolding LL .
  have ok: "sizes_ok (P @ [(fst pv, snd pv), (sz, False)] @ post)"
    using valid_heap_sizes[OF v] unfolding LL .
  have e: "GET (mem s) (?h + total P + fst pv + sz + total post - 4) = tag 0 True"
  proof -
    have "?h + total ((8, True) # pre @ (sz, False) # post) - 4 = ?h + total P + fst pv + sz + total post - 4"
      using tP by simp
    with valid_heap_epilogue[OF v] show ?thesis by simp
  qed
  have bound: "?h + total P + fst pv + sz + total post < 2 ^ 32"
    using valid_heap_bound[OF v] tP by simp
  have h4: "4 \<le> ?h" using v by (simp add: valid_heap_def)
  define pb where "pb = ?h + total P"
  have bpp: "bp = pb + fst pv" using tP by (simp add: bp pb_def)
  have nf_eq: "nf = (post \<noteq> [] \<and> \<not> snd (hd post))" by (simp add: nf_def next_free_def)
  note eq = coalesce_eq[OF t e ok h4 bound pb_def bpp nf_eq nsz_def, unfolded pa]
  have pf_pre: "prev_free pre \<Longrightarrow> pre = butlast pre @ [pv] \<and> P = (8, True) # butlast pre"
    by (auto simp: prev_free_def pv_def P_def)
  have npf_pre: "\<not> prev_free pre \<Longrightarrow> pre \<noteq> [] \<Longrightarrow> pre = butlast pre @ [pv]"
    by (auto simp: pv_def)
  have cp: "coalesce_ptr pre bp = (if prev_free pre then pb else bp)"
    using bpp by (auto simp: coalesce_ptr_def prev_free_def pv_def)
  have cs: "coalesce_size pre sz post = (if prev_free pre then fst pv else 0) + sz + (if nf then nsz else 0)"
    by (auto simp: coalesce_size_def nf_def nsz_def prev_free_def pv_def)
  show ceq: "coalesce s bp =
           (if \<not> prev_free pre \<and> \<not> next_free post then s
            else s\<lparr>mem := set_block (mem s) (coalesce_ptr pre bp) (coalesce_size pre sz post) False\<rparr>,
            coalesce_ptr pre bp)"
    using eq by (auto simp: cp cs nf_def)
  show ptr: "coalesce_ptr pre bp = ?h + 8 + total (if prev_free pre then butlast pre else pre)"
  proof (cases "prev_free pre")
    case True
    from pf_pre[OF True] have "P = (8, True) # butlast pre" by simp
    then show ?thesis using True by (simp add: cp pb_def)
  next
    case False
    then show ?thesis by (simp add: coalesce_ptr_def bp)
  qed
  show "valid_heap (fst (coalesce s bp)) (coalesce_blocks pre sz post)"
  proof (cases "\<not> prev_free pre \<and> \<not> next_free post")
    case True
    then show ?thesis using v by (simp add: ceq coalesce_blocks_def coalesce_size_def)
  next
    case False
    define A where "A = (if prev_free pre then butlast pre else pre)"
    define B where "B = (if next_free post then tl post else post)"
    define X where "X = (if prev_free pre then [pv] else []) @ [(sz, False)] @ (if next_free post then [hd post] else [])"
    have split: "pre @ (sz, False) # post = A @ X @ B"
      using pf_pre by (auto simp: A_def B_def X_def next_free_def)
    have tX: "total X = coalesce_size pre sz post"
      by (auto simp: X_def cs nf_def nsz_def)
    have "valid_heap (s\<lparr>mem := set_block (mem s) (coalesce_ptr pre bp) (total X) False\<rparr>) (A @ [(total X, False)] @ B)"
    proof (rule merge_valid)
      show "valid_heap s (A @ X @ B)" using v split by simp
      show "coalesce_ptr pre bp = ?h + 8 + total A" using ptr by (simp add: A_def)
      show "X \<noteq> []" by (simp add: X_def)
    qed
    then show ?thesis
      using False by (auto simp: ceq tX coalesce_blocks_def A_def B_def)
  qed
qed


section \<open>extend\_heap and mm\_init\<close>

lemma coalesce_fields [simp]:
  "heap_listp (fst (coalesce s bp)) = heap_listp s" "mem_brk (fst (coalesce s bp)) = mem_brk s"
  "mem_max_addr (fst (coalesce s bp)) = mem_max_addr s"
  by (simp_all add: coalesce_def Let_def)

lemma mem_sbrk_ok:
  "mem_brk s + unat incr \<le> mem_max_addr s \<Longrightarrow> mem_sbrk s incr = Some (s\<lparr>mem_brk := mem_brk s + unat incr\<rparr>, mem_brk s)"
  by (simp add: mem_sbrk_def)

lemma mem_sbrk_fail:
  "mem_max_addr s < mem_brk s + unat incr \<Longrightarrow> mem_sbrk s incr = None"
  by (simp add: mem_sbrk_def)

lemma extend_heap_alt:
  "extend_heap s words =
     (case mem_sbrk s (extend_size words) of
        None \<Rightarrow> (s, None)
      | Some (s1, bp) \<Rightarrow>
          (let m1 = PUT (mem s1) (HDRP bp) (PACK (extend_size words) 0);
               m2 = PUT m1 (FTRP m1 bp) (PACK (extend_size words) 0);
               m3 = PUT m2 (HDRP (NEXT_BLKP m2 bp)) (PACK 0 1);
               (s2, bp2) = coalesce (s1\<lparr>mem := m3\<rparr>) bp
           in (s2, Some bp2)))"
  by (simp only: extend_heap_def extend_size_def Let_def)

text \<open>The heap right after the new block and the new epilogue are written.\<close>

lemma extend_fresh:
  assumes v: "valid_heap s bs" and n: "n = unat sz" "16 \<le> n" "8 dvd n"
    and room: "mem_brk s + n \<le> mem_max_addr s" and bp: "bp = mem_brk s"
    and m3: "m3 = PUT (set_block (mem s) bp n False) (bp + n - 4) (tag 0 True)"
  shows "valid_heap (s\<lparr>mem_brk := mem_brk s + n, mem := m3\<rparr>) (bs @ [(n, False)])"
    and "same_outside (mem s) m3 (bp - 4) (bp + n)"
proof -
  let ?h = "heap_listp s"
  from v have h: "8 \<le> ?h" "8 dvd ?h" and ok: "list_all block_ok bs"
    and t: "tags_at (mem s) ?h ((8, True) # bs)"
    and brk: "mem_brk s = ?h + 8 + total bs" and mx: "mem_max_addr s < 2 ^ 32"
    by (simp_all add: valid_heap_def)
  have bp16: "16 \<le> bp" using h by (simp add: bp brk)
  let ?m2 = "set_block (mem s) bp n False"
  have f2: "same_outside (mem s) ?m2 (bp - 4) (bp + n - 4)"
    using n bp16 by (intro set_block_frame) auto
  have f3: "same_outside ?m2 m3 (bp + n - 4) (bp + n)"
    unfolding m3 using n by (intro same_outside_PUT) auto
  show fr: "same_outside (mem s) m3 (bp - 4) (bp + n)"
    using same_outside_mono[OF f2, of "bp - 4" "bp + n"] same_outside_mono[OF f3, of "bp - 4" "bp + n"]
    by (auto intro: same_outside_trans)
  have "tags_at m3 ?h ((8, True) # bs) = tags_at (mem s) ?h ((8, True) # bs)"
    using h valid_heap_sizes[OF v] by (intro same_outside_tags[OF fr]) (auto simp: bp brk)
  with t have t3: "tags_at m3 ?h ((8, True) # bs)" by simp
  have "GET m3 (bp - 4) = GET ?m2 (bp - 4)"
    by (rule same_outside_GET[OF f3]) (use n(2) bp16 in linarith)
  moreover have "GET m3 (bp + n - 8) = GET ?m2 (bp + n - 8)"
    by (rule same_outside_GET[OF f3]) (use n(2) bp16 in linarith)
  ultimately have new: "tags_at m3 bp [(n, False)]"
    using set_block_tags[of n bp "mem s" False] n bp16 by simp
  have ep: "GET m3 (bp + n - 4) = tag 0 True" by (simp add: m3 GET_PUT_same)
  have "tags_at m3 ?h (((8, True) # bs) @ [(n, False)])"
    unfolding tags_at_append using t3 new by (simp add: bp brk)
  moreover have "?h + 4 + total (bs @ [(n, False)]) = bp + n - 4" using n by (simp add: bp brk)
  ultimately show "valid_heap (s\<lparr>mem_brk := mem_brk s + n, mem := m3\<rparr>) (bs @ [(n, False)])"
    using h ok n ep room mx by (simp add: valid_heap_def block_ok_def brk)
qed

lemma total_butlast: "bs \<noteq> [] \<Longrightarrow> total bs = total (butlast bs) + fst (last bs)"
  by (induction bs) auto

lemma extend_heap_valid:
  assumes v: "valid_heap s bs" and n: "n = unat (extend_size words)" "16 \<le> n" "8 dvd n"
  shows "mem_max_addr s < mem_brk s + n \<Longrightarrow> extend_heap s words = (s, None)"
    and "mem_brk s + n \<le> mem_max_addr s \<Longrightarrow>
           snd (extend_heap s words) = Some (coalesce_ptr bs (mem_brk s))
           \<and> valid_heap (fst (extend_heap s words)) (coalesce_blocks bs n [])
           \<and> mem_brk (fst (extend_heap s words)) = mem_brk s + n
           \<and> heap_listp (fst (extend_heap s words)) = heap_listp s
           \<and> mem_max_addr (fst (extend_heap s words)) = mem_max_addr s
           \<and> same_outside (mem s) (mem (fst (extend_heap s words))) (coalesce_ptr bs (mem_brk s) - 4) (mem_brk s + n)"
proof -
  show "mem_max_addr s < mem_brk s + n \<Longrightarrow> extend_heap s words = (s, None)"
    using mem_sbrk_fail[of s "extend_size words"]
    by (simp add: extend_heap_alt n(1))
next
  assume room: "mem_brk s + n \<le> mem_max_addr s"
  let ?bp = "mem_brk s"
  let ?sz = "extend_size words"
  have n32: "n < 2 ^ 32" using v room by (simp add: valid_heap_def)
  have szw: "?sz = of_nat n" by (simp add: n(1))
  have bp16: "16 \<le> ?bp" using v by (simp add: valid_heap_def)
  define m3 where "m3 = PUT (set_block (mem s) ?bp n False) (?bp + n - 4) (tag 0 True)"
  define s3 where "s3 = s\<lparr>mem_brk := mem_brk s + n, mem := m3\<rparr>"
  note fresh = extend_fresh[OF v n(1) n(2,3) room refl m3_def, folded s3_def]
  let ?m1 = "PUT (mem s) (?bp - 4) (tag n False)"
  have f1: "FTRP ?m1 ?bp = ?bp + n - 8" by (rule FTRP_PUT_hdr[OF n(3) n32])
  let ?m2 = "PUT ?m1 (?bp + n - 8) (tag n False)"
  have "GET ?m2 (?bp - 4) = GET ?m1 (?bp - 4)"
    using n bp16 by (intro GET_PUT_other) auto
  then have g2: "GET ?m2 (?bp - 4) = tag n False" by (simp add: GET_PUT_same)
  have n2: "NEXT_BLKP ?m2 ?bp = ?bp + n"
    using GET_SIZE_tag[OF g2 n(3) n32] by (simp add: NEXT_BLKP_def WSIZE_def)
  have p01: "PACK 0 1 = tag 0 True" by (simp add: tag_def)
  have ext: "extend_heap s words = (fst (coalesce s3 ?bp), Some (snd (coalesce s3 ?bp)))"
    using room
    by (simp add: extend_heap_alt mem_sbrk_def n(1)[symmetric] szw unat_of_nat32[OF n32] tag_PACK
        HDRP_def WSIZE_def f1 n2 p01 Let_def s3_def m3_def set_block_def split: prod.splits)
  have brk3: "?bp = heap_listp s3 + 8 + total bs"
    using v by (simp add: s3_def valid_heap_def)
  note cv = coalesce_valid[OF fresh(1) brk3]
  have cpl: "coalesce_ptr bs ?bp \<le> ?bp" by (simp add: coalesce_ptr_def)
  have cpsz: "coalesce_ptr bs ?bp + coalesce_size bs n [] = ?bp + n"
  proof (cases "prev_free bs")
    case True
    then have "total bs = total (butlast bs) + fst (last bs)" 
      by (intro total_butlast) (simp add: prev_free_def)
    then have "fst (last bs) \<le> ?bp" using brk3 by simp
    then show ?thesis using True by (simp add: coalesce_ptr_def coalesce_size_def next_free_def)
  next
    case False
    then show ?thesis by (simp add: coalesce_ptr_def coalesce_size_def next_free_def)
  qed
  have fr3: "same_outside (mem s3) (mem (fst (coalesce s3 ?bp))) (coalesce_ptr bs ?bp - 4) (?bp + n)"
  proof (cases "\<not> prev_free bs \<and> \<not> next_free ([] :: block list)")
    case True
    then show ?thesis by (simp add: cv(1))
  next
    case False
    have c16: "8 \<le> coalesce_size bs n []" using n by (simp add: coalesce_size_def)
    have c4: "4 \<le> coalesce_ptr bs ?bp" using cv(3) by simp
    have "same_outside (mem s3) (set_block (mem s3) (coalesce_ptr bs ?bp) (coalesce_size bs n []) False)
            (coalesce_ptr bs ?bp - 4) (coalesce_ptr bs ?bp + coalesce_size bs n [] - 4)"
      by (rule set_block_frame[OF c16 c4])
    then have "same_outside (mem s3) (set_block (mem s3) (coalesce_ptr bs ?bp) (coalesce_size bs n []) False)
            (coalesce_ptr bs ?bp - 4) (?bp + n)"
      by (rule same_outside_mono) (simp_all add: cpsz)
    then show ?thesis using False by (simp add: cv(1))
  qed
  have "same_outside (mem s) (mem s3) (coalesce_ptr bs ?bp - 4) (?bp + n)"
    using fresh(2) cpl by (simp add: s3_def) (erule same_outside_mono; simp)
  then have fr: "same_outside (mem s) (mem (fst (coalesce s3 ?bp))) (coalesce_ptr bs ?bp - 4) (?bp + n)"
    using fr3 by (rule same_outside_trans)
  show "snd (extend_heap s words) = Some (coalesce_ptr bs (mem_brk s))
           \<and> valid_heap (fst (extend_heap s words)) (coalesce_blocks bs n [])
           \<and> mem_brk (fst (extend_heap s words)) = mem_brk s + n
           \<and> heap_listp (fst (extend_heap s words)) = heap_listp s
           \<and> mem_max_addr (fst (extend_heap s words)) = mem_max_addr s
           \<and> same_outside (mem s) (mem (fst (extend_heap s words))) (coalesce_ptr bs (mem_brk s) - 4) (mem_brk s + n)"
    using cv(2) fr by (simp add: ext cv(1)) (simp add: s3_def)
qed


lemma CHUNKSIZE_val: "CHUNKSIZE = 4096"
  by (simp add: CHUNKSIZE_def)

lemma extend_size_div4:
  assumes "8 dvd unat w"
  shows "extend_size (w div 4) = w"
proof -
  from assms obtain k where k: "unat w = 8 * k" by (auto simp: dvd_def)
  have u4: "unat (w div 4) = 2 * k" by (simp add: unat_div k)
  have "unat ((w div 4) mod 2) = 0" by (simp add: unat_mod u4)
  then have m: "(w div 4) mod 2 = 0" by (simp add: unat_eq_0)
  have "unat (w div 4 * 4) = unat w"
    using unsigned_less[of w, where 'a = nat] by (simp add: unat_word_ariths u4 k)
  then have "w div 4 * 4 = w" by (rule word_unat_eq_iff[THEN iffD2])
  then show ?thesis by (simp add: extend_size_def m)
qed

lemma adjust_size_dvd: "8 dvd unat (adjust_size n)"
proof (cases "n \<le> 8")
  case True
  then show ?thesis by (simp add: adjust_size_def)
next
  case False
  have "unat (8 * w :: word32) = (8 * unat w) mod 2 ^ 32" for w
    by (simp add: unat_word_ariths)
  moreover have "8 dvd (8 * x) mod 2 ^ 32" for x :: nat
    by (simp add: dvd_mod)
  ultimately have "8 dvd unat (8 * w :: word32)" for w by simp
  then show ?thesis using False by (simp add: adjust_size_def)
qed

lemma adjust_size_unat:
  assumes "unat n + 15 < 2 ^ 32"
  shows "unat (adjust_size n) = (if unat n \<le> 8 then 16 else 8 * ((unat n + 15) div 8))"
proof (cases "n \<le> 8")
  case True
  then show ?thesis by (simp add: adjust_size_def word_le_nat_alt)
next
  case False
  then have n8: "\<not> unat n \<le> 8" by (simp add: word_le_nat_alt)
  have a: "unat (n + 8 + 7) = unat n + 15"
    using assms by (simp add: unat_word_ariths)
  then have d: "unat ((n + 8 + 7) div 8) = (unat n + 15) div 8"
    by (simp add: unat_div)
  have "8 * ((unat n + 15) div 8) \<le> unat n + 15" by simp
  then have "8 * ((unat n + 15) div 8) < 2 ^ 32" using assms by linarith
  then have "unat (8 * ((n + 8 + 7) div 8)) = 8 * ((unat n + 15) div 8)"
    using d by (simp add: unat_word_ariths)
  then show ?thesis using False n8 by (simp add: adjust_size_def)
qed

lemma adjust_size_bounds:
  assumes "unat n + 15 < 2 ^ 32"
  shows "16 \<le> unat (adjust_size n)" "unat n + 8 \<le> unat (adjust_size n)"
  using assms by (auto simp: adjust_size_unat)

lemma mm_init_valid:
  assumes al: "8 dvd mem_brk s" and room: "mem_brk s + 4112 \<le> mem_max_addr s"
    and mx: "mem_max_addr s < 2 ^ 32"
  shows "snd (mm_init s) = 0" "valid_heap (fst (mm_init s)) [(4096, False)]"
    "heap_listp (fst (mm_init s)) = mem_brk s + 8" "mem_brk (fst (mm_init s)) = mem_brk s + 4112"
    "mem_max_addr (fst (mm_init s)) = mem_max_addr s"
proof -
  let ?p = "mem_brk s"
  define m4 where "m4 = PUT (PUT (PUT (PUT (mem s) ?p 0) (?p + 4) (tag 8 True)) (?p + 8) (tag 8 True))
                          (?p + 12) (tag 0 True)"
  define s2 where "s2 = s\<lparr>mem_brk := ?p + 16, mem := m4, heap_listp := ?p + 8\<rparr>"
  have pk: "PACK 8 1 = tag 8 True" "PACK 0 1 = tag 0 True" by (simp_all add: tag_def)
  have g4: "GET m4 (?p + 4) = tag 8 True"
    unfolding m4_def by (simp add: GET_PUT_same GET_PUT_other)
  have g8: "GET m4 (?p + 8) = tag 8 True"
    unfolding m4_def by (simp add: GET_PUT_same GET_PUT_other)
  have g12: "GET m4 (?p + 12) = tag 0 True"
    unfolding m4_def by (simp add: GET_PUT_same GET_PUT_other)
  have v2: "valid_heap s2 []"
    using al room mx g4 g8 g12 by (simp add: valid_heap_def s2_def ac_simps)
  have es: "extend_size (CHUNKSIZE div 4) = 4096"
    using extend_size_div4[of CHUNKSIZE] by (simp add: CHUNKSIZE_val)
  have init: "mm_init s = (case extend_heap s2 (CHUNKSIZE div 4) of (s3, None) \<Rightarrow> (s3, - 1) | (s3, Some x) \<Rightarrow> (s3, 0))"
    using room by (simp add: mm_init_def mem_sbrk_def WSIZE_def pk Let_def s2_def m4_def)
  have n: "(4096 :: nat) = unat (extend_size (CHUNKSIZE div 4))" by (simp add: es)
  have "mem_brk s2 + 4096 \<le> mem_max_addr s2" using room by (simp add: s2_def)
  from extend_heap_valid(2)[OF v2 n _ _ this]
  have ex: "snd (extend_heap s2 (CHUNKSIZE div 4)) = Some (coalesce_ptr [] (mem_brk s2))"
    "valid_heap (fst (extend_heap s2 (CHUNKSIZE div 4))) (coalesce_blocks [] 4096 [])"
    "mem_brk (fst (extend_heap s2 (CHUNKSIZE div 4))) = mem_brk s2 + 4096"
    "heap_listp (fst (extend_heap s2 (CHUNKSIZE div 4))) = heap_listp s2"
    "mem_max_addr (fst (extend_heap s2 (CHUNKSIZE div 4))) = mem_max_addr s2"
    by simp_all
  have cb: "coalesce_blocks [] 4096 [] = [(4096, False)]"
    by (simp add: coalesce_blocks_def coalesce_size_def prev_free_def next_free_def)
  obtain s3 r where e3: "extend_heap s2 (CHUNKSIZE div 4) = (s3, r)" by (cases "extend_heap s2 (CHUNKSIZE div 4)")
  with ex have r: "r = Some (coalesce_ptr [] (mem_brk s2))" by simp
  show "snd (mm_init s) = 0" by (simp add: init e3 r)
  show "valid_heap (fst (mm_init s)) [(4096, False)]" using ex(2) by (simp add: init e3 r cb)
  have f2: "heap_listp s2 = mem_brk s + 8" "mem_brk s2 = mem_brk s + 16" "mem_max_addr s2 = mem_max_addr s"
    by (simp_all add: s2_def)
  show "heap_listp (fst (mm_init s)) = mem_brk s + 8" using ex(4) by (simp add: init e3 r f2)
  show "mem_brk (fst (mm_init s)) = mem_brk s + 4112" using ex(3) by (simp add: init e3 r f2)
  show "mem_max_addr (fst (mm_init s)) = mem_max_addr s" using ex(5) by (simp add: init e3 r f2)
qed


section \<open>mm\_malloc\<close>

lemma first_fit_dropWhile:
  "first_fit b bs k =
     (if dropWhile (busy k) bs = [] then None else Some (b + total (takeWhile (busy k) bs)))"
proof (induction bs arbitrary: b)
  case Nil
  then show ?case by simp
next
  case (Cons x bs)
  obtain sz al where x: "x = (sz, al)" by (cases x)
  have fit: "(\<not> al \<and> k \<le> sz) = (\<not> busy k (sz, al))" by (auto simp: busy_def)
  show ?case
    unfolding x first_fit.simps fit
    by (cases "busy k (sz, al)") (simp_all add: Cons.IH add.assoc)
qed

lemma dropWhile_busy_hd: "dropWhile (busy k) bs = x # post \<Longrightarrow> \<not> snd x \<and> k \<le> fst x"
  using hd_dropWhile[of "busy k" bs] by (auto simp: busy_def)

lemma coalesce_ptr_total:
  "bp = h + 8 + total pre \<Longrightarrow> coalesce_ptr pre bp = h + 8 + total (if prev_free pre then butlast pre else pre)"
  using total_butlast[of pre] by (auto simp: coalesce_ptr_def prev_free_def)

lemma unat_max_CHUNK: "unat (max w CHUNKSIZE) = max (unat w) 4096"
  by (simp add: max_def word_le_nat_alt CHUNKSIZE_val)

lemma mm_malloc_cases:
  assumes v: "valid_heap s bs" and n0: "n \<noteq> 0" and a: "a = unat (adjust_size n)"
    and bp: "bp = heap_listp s + 8 + total (takeWhile (busy a) bs)"
  shows "dropWhile (busy a) bs \<noteq> [] \<Longrightarrow> mm_malloc s n = Some (place s bp (adjust_size n), Some bp)"
    and "dropWhile (busy a) bs = [] \<Longrightarrow> mem_max_addr s < mem_brk s + max a 4096
         \<Longrightarrow> mm_malloc s n = Some (s, None)"
    and "dropWhile (busy a) bs = [] \<Longrightarrow> mem_brk s + max a 4096 \<le> mem_max_addr s
         \<Longrightarrow> mm_malloc s n =
               Some (place (fst (extend_heap s (max (adjust_size n) CHUNKSIZE div 4)))
                       (coalesce_ptr bs (mem_brk s)) (adjust_size n),
                     Some (coalesce_ptr bs (mem_brk s)))"
proof -
  let ?w = "max (adjust_size n) CHUNKSIZE"
  note ff = find_fit_valid[OF v, of "adjust_size n", folded a, unfolded first_fit_dropWhile]
  have d8: "8 dvd unat ?w" using adjust_size_dvd[of n] by (simp only: unat_max_CHUNK) (simp add: max_def)
  have e: "max a 4096 = unat (extend_size (?w div 4))"
    by (simp add: extend_size_div4[OF d8] unat_max_CHUNK a)
  have e16: "16 \<le> max a 4096" by simp
  have e8: "8 dvd max a 4096"
    using d8 by (simp only: unat_max_CHUNK a)
  note ex = extend_heap_valid[OF v e e16 e8]
  show "dropWhile (busy a) bs \<noteq> [] \<Longrightarrow> mm_malloc s n = Some (place s bp (adjust_size n), Some bp)"
    using n0 by (auto simp: mm_malloc_def ff bp Let_def)
  show "dropWhile (busy a) bs = [] \<Longrightarrow> mem_max_addr s < mem_brk s + max a 4096
         \<Longrightarrow> mm_malloc s n = Some (s, None)"
    using n0 ex(1) by (simp add: mm_malloc_def ff Let_def)
  assume "dropWhile (busy a) bs = []" "mem_brk s + max a 4096 \<le> mem_max_addr s"
  then show "mm_malloc s n =
               Some (place (fst (extend_heap s (?w div 4))) (coalesce_ptr bs (mem_brk s)) (adjust_size n),
                     Some (coalesce_ptr bs (mem_brk s)))"
    using n0 ex(2) by (auto simp: mm_malloc_def ff Let_def split: prod.splits)
qed


lemma place_valid_split:
  assumes v: "valid_heap s (pre @ (c, False) # post)" and bp: "bp = heap_listp s + 8 + total pre"
    and a: "a = unat asize" "8 dvd a" "16 \<le> a" "a \<le> c"
  shows "valid_heap (place s bp asize) (pre @ split_block c a @ post)"
  using place_valid(1)[OF assms] by (simp add: split_block_def)

text \<open>The state in which \<open>place\<close> runs, for every request: a free block that is large enough.\<close>

lemma mm_malloc_before_place:
  assumes v: "valid_heap s bs" and n0: "n \<noteq> 0" and a: "a = unat (adjust_size n)"
    and ok: "\<not> malloc_fails s bs a"
  shows "\<exists>s1 pre c post.
           mm_malloc s n = Some (place s1 (malloc_ptr (heap_listp s) bs a) (adjust_size n),
                                 Some (malloc_ptr (heap_listp s) bs a))
           \<and> valid_heap s1 (pre @ (c, False) # post) \<and> a \<le> c
           \<and> malloc_ptr (heap_listp s) bs a = heap_listp s1 + 8 + total pre
           \<and> malloc_blocks bs a = pre @ split_block c a @ post
           \<and> heap_listp s1 = heap_listp s \<and> mem_max_addr s1 = mem_max_addr s
           \<and> mem_brk s1 = (if dropWhile (busy a) bs = [] then mem_brk s + max a 4096 else mem_brk s)
           \<and> same_outside (mem s) (mem s1) (malloc_ptr (heap_listp s) bs a - 4) (mem_brk s1)"
proof (cases "dropWhile (busy a) bs")
  case Nil
  let ?e = "max a 4096"
  let ?w = "max (adjust_size n) CHUNKSIZE"
  let ?A = "if prev_free bs then butlast bs else bs"
  let ?c = "coalesce_size bs ?e []"
  from ok Nil have room: "mem_brk s + ?e \<le> mem_max_addr s" by (simp add: malloc_fails_def)
  have d8: "8 dvd unat ?w" using adjust_size_dvd[of n] by (simp only: unat_max_CHUNK) (simp add: max_def)
  have e: "?e = unat (extend_size (?w div 4))"
    by (simp add: extend_size_div4[OF d8] unat_max_CHUNK a)
  have e16: "16 \<le> ?e" by simp
  have e8: "8 dvd ?e" using d8 by (simp only: unat_max_CHUNK a)
  note ex = extend_heap_valid(2)[OF v e e16 e8 room]
  define s1 where "s1 = fst (extend_heap s (?w div 4))"
  have brk: "mem_brk s = heap_listp s + 8 + total bs" using v by (simp add: valid_heap_def)
  have ptr: "malloc_ptr (heap_listp s) bs a = coalesce_ptr bs (mem_brk s)"
    using coalesce_ptr_total[OF brk] by (simp add: malloc_ptr_def Nil)
  have "mm_malloc s n = Some (place s1 (malloc_ptr (heap_listp s) bs a) (adjust_size n),
                                 Some (malloc_ptr (heap_listp s) bs a))"
    using mm_malloc_cases(3)[OF v n0 a refl Nil room] by (simp add: s1_def ptr)
  moreover have "valid_heap s1 (?A @ (?c, False) # [])"
    using ex by (simp add: s1_def coalesce_blocks_def next_free_def)
  moreover have "a \<le> ?c" by (simp add: coalesce_size_def)
  moreover have "malloc_ptr (heap_listp s) bs a = heap_listp s1 + 8 + total ?A"
    using ex by (simp add: malloc_ptr_def Nil s1_def)
  moreover have "malloc_blocks bs a = ?A @ split_block ?c a @ []"
    by (simp add: malloc_blocks_def Nil)
  moreover have "heap_listp s1 = heap_listp s" "mem_max_addr s1 = mem_max_addr s"
    "mem_brk s1 = mem_brk s + ?e"
    using ex by (simp_all add: s1_def)
  moreover have "same_outside (mem s) (mem s1) (malloc_ptr (heap_listp s) bs a - 4) (mem_brk s1)"
    using ex by (simp add: s1_def ptr)
  ultimately show ?thesis using Nil by (intro exI[of _ s1] exI[of _ ?A] exI[of _ ?c] exI[of _ "[]"]) simp
next
  case (Cons b post)
  let ?pre = "takeWhile (busy a) bs"
  from dropWhile_busy_hd[OF Cons] obtain c where b: "b = (c, False)" and ac: "a \<le> c"
    by (cases b) auto
  have bs: "bs = ?pre @ (c, False) # post"
    using takeWhile_dropWhile_id[of "busy a" bs] by (simp add: Cons b)
  have ne: "dropWhile (busy a) bs \<noteq> []" by (simp add: Cons)
  have ptr: "malloc_ptr (heap_listp s) bs a = heap_listp s + 8 + total ?pre"
    by (simp add: malloc_ptr_def Cons)
  have "mm_malloc s n = Some (place s (malloc_ptr (heap_listp s) bs a) (adjust_size n),
                                 Some (malloc_ptr (heap_listp s) bs a))"
    using mm_malloc_cases(1)[OF v n0 a refl ne] by (simp add: ptr)
  moreover have "valid_heap s (?pre @ (c, False) # post)" using v bs by simp
  moreover have "malloc_blocks bs a = ?pre @ split_block c a @ post"
    by (simp add: malloc_blocks_def Cons b)
  ultimately show ?thesis
    using ac ptr Cons by (intro exI[of _ s] exI[of _ ?pre] exI[of _ c] exI[of _ post]) simp
qed

lemma mm_malloc_valid:
  assumes v: "valid_heap s bs" and n0: "n \<noteq> 0" and nb: "unat n + 15 < 2 ^ 32"
    and a: "a = unat (adjust_size n)" and ok: "\<not> malloc_fails s bs a"
  shows "\<exists>s'. mm_malloc s n = Some (s', Some (malloc_ptr (heap_listp s) bs a))
           \<and> valid_heap s' (malloc_blocks bs a)
           \<and> heap_listp s' = heap_listp s \<and> mem_max_addr s' = mem_max_addr s
           \<and> mem_brk s' = (if dropWhile (busy a) bs = [] then mem_brk s + max a 4096 else mem_brk s)"
proof -
  from mm_malloc_before_place[OF v n0 a ok] obtain s1 pre c post where
    m: "mm_malloc s n = Some (place s1 (malloc_ptr (heap_listp s) bs a) (adjust_size n),
                                 Some (malloc_ptr (heap_listp s) bs a))"
    and v1: "valid_heap s1 (pre @ (c, False) # post)" and ac: "a \<le> c"
    and ptr: "malloc_ptr (heap_listp s) bs a = heap_listp s1 + 8 + total pre"
    and mb: "malloc_blocks bs a = pre @ split_block c a @ post"
    and f: "heap_listp s1 = heap_listp s" "mem_max_addr s1 = mem_max_addr s"
      "mem_brk s1 = (if dropWhile (busy a) bs = [] then mem_brk s + max a 4096 else mem_brk s)"
    by blast
  have a16: "16 \<le> a" "8 dvd a"
    using adjust_size_bounds(1)[OF nb] adjust_size_dvd[of n] by (simp_all add: a)
  have "valid_heap (place s1 (malloc_ptr (heap_listp s) bs a) (adjust_size n)) (malloc_blocks bs a)"
    unfolding mb by (rule place_valid_split[OF v1 ptr a a16(2,1) ac])
  then show ?thesis using m f by simp
qed


section \<open>mm\_free\<close>

lemma mark_valid:
  assumes v: "valid_heap s (pre @ (sz, al) # post)" and bp: "bp = heap_listp s + 8 + total pre"
  shows "valid_heap (s\<lparr>mem := set_block (mem s) bp sz al'\<rparr>) (pre @ (sz, al') # post)"
proof -
  note blk = valid_heap_block[OF v bp]
  have "valid_heap (s\<lparr>mem := set_block (mem s) bp sz al'\<rparr>) (pre @ [(sz, al')] @ post)"
  proof (rule valid_heap_replace[where X = "[(sz, al)]" and s = s and b = bp])
    show "valid_heap s (pre @ [(sz, al)] @ post)" using v by simp
    show "same_outside (mem s) (mem (s\<lparr>mem := set_block (mem s) bp sz al'\<rparr>)) (bp - 4) (bp + total [(sz, al)] - 4)"
      using set_block_frame[of sz bp "mem s" al'] blk by simp
    show "tags_at (mem (s\<lparr>mem := set_block (mem s) bp sz al'\<rparr>)) bp [(sz, al')]"
      using set_block_tags[of sz bp "mem s" al'] blk by simp
    show "list_all block_ok [(sz, al')]" using blk by (simp add: block_ok_def)
  qed (simp_all add: bp)
  then show ?thesis by simp
qed

lemma coalesce_size_ptr:
  "bp = h + 8 + total pre \<Longrightarrow> coalesce_ptr pre bp + coalesce_size pre sz post =
     bp + sz + (if next_free post then fst (hd post) else 0)"
  using total_butlast[of pre] by (auto simp: coalesce_ptr_def coalesce_size_def prev_free_def)

lemma coalesce_frame:
  assumes v: "valid_heap s (pre @ (sz, False) # post)" and bp: "bp = heap_listp s + 8 + total pre"
  shows "same_outside (mem s) (mem (fst (coalesce s bp)))
           (coalesce_ptr pre bp - 4) (coalesce_ptr pre bp + coalesce_size pre sz post - 4)"
proof (cases "\<not> prev_free pre \<and> \<not> next_free post")
  case True
  then show ?thesis by (simp add: coalesce_valid(1)[OF v bp])
next
  case False
  have "16 \<le> sz" using valid_heap_block(3)[OF v bp] .
  then have c8: "8 \<le> coalesce_size pre sz post" by (simp add: coalesce_size_def)
  have c4: "4 \<le> coalesce_ptr pre bp" using coalesce_valid(3)[OF v bp] by simp
  show ?thesis using False set_block_frame[OF c8 c4] by (simp add: coalesce_valid(1)[OF v bp])
qed

lemma mm_free_eq:
  assumes v: "valid_heap s (pre @ (sz, True) # post)" and ptr: "ptr = heap_listp s + 8 + total pre"
  shows "mm_free s ptr = fst (coalesce (s\<lparr>mem := set_block (mem s) ptr sz False\<rparr>) ptr)"
proof -
  note blk = valid_heap_block[OF v ptr]
  have gs: "GET_SIZE (mem s) (ptr - 4) = of_nat sz" by (rule GET_SIZE_tag_word[OF blk(1,4)])
  have f: "FTRP (PUT (mem s) (ptr - 4) (tag sz False)) ptr = ptr + sz - 8"
    by (rule FTRP_PUT_hdr[OF blk(4,5)])
  show ?thesis
    by (simp add: mm_free_def Let_def HDRP_def WSIZE_def gs tag_PACK f set_block_def)
qed

lemma mm_free_valid:
  assumes v: "valid_heap s (pre @ (sz, True) # post)" and ptr: "ptr = heap_listp s + 8 + total pre"
  shows "valid_heap (mm_free s ptr) (coalesce_blocks pre sz post)"
    and "heap_listp (mm_free s ptr) = heap_listp s" "mem_brk (mm_free s ptr) = mem_brk s"
    "mem_max_addr (mm_free s ptr) = mem_max_addr s"
    and "same_outside (mem s) (mem (mm_free s ptr))
           (coalesce_ptr pre ptr - 4) (coalesce_ptr pre ptr + coalesce_size pre sz post - 4)"
proof -
  define s1 where "s1 = s\<lparr>mem := set_block (mem s) ptr sz False\<rparr>"
  have v1: "valid_heap s1 (pre @ (sz, False) # post)"
    unfolding s1_def by (rule mark_valid[OF v ptr])
  have p1: "ptr = heap_listp s1 + 8 + total pre" by (simp add: s1_def ptr)
  have eq: "mm_free s ptr = fst (coalesce s1 ptr)" unfolding s1_def by (rule mm_free_eq[OF v ptr])
  show "valid_heap (mm_free s ptr) (coalesce_blocks pre sz post)"
    unfolding eq by (rule coalesce_valid(2)[OF v1 p1])
  show "heap_listp (mm_free s ptr) = heap_listp s" "mem_brk (mm_free s ptr) = mem_brk s"
    "mem_max_addr (mm_free s ptr) = mem_max_addr s"
    by (simp_all add: eq) (simp_all add: s1_def)
  note blk = valid_heap_block[OF v ptr]
  have lo: "coalesce_ptr pre ptr \<le> ptr" by (simp add: coalesce_ptr_def)
  have hi: "ptr + sz \<le> coalesce_ptr pre ptr + coalesce_size pre sz post"
    by (simp add: coalesce_size_ptr[OF ptr])
  have "same_outside (mem s) (mem s1) (ptr - 4) (ptr + sz - 4)"
    using set_block_frame[of sz ptr "mem s" False] blk by (simp add: s1_def)
  then have "same_outside (mem s) (mem s1) (coalesce_ptr pre ptr - 4) (coalesce_ptr pre ptr + coalesce_size pre sz post - 4)"
    by (rule same_outside_mono) (use lo hi in simp_all)
  then show "same_outside (mem s) (mem (mm_free s ptr))
           (coalesce_ptr pre ptr - 4) (coalesce_ptr pre ptr + coalesce_size pre sz post - 4)"
    unfolding eq using coalesce_frame[OF v1 p1] by (rule same_outside_trans)
qed


section \<open>The example heaps\<close>

lemma heap1_valid:
  "valid_heap heap1 [(4096, False)]" "heap_listp heap1 = 8" "mem_brk heap1 = 4112"
  "mem_max_addr heap1 = 20971520" "mm_init s0 = (heap1, 0)"
proof -
  have a: "8 dvd mem_brk s0" "mem_brk s0 + 4112 \<le> mem_max_addr s0" "mem_max_addr s0 < 2 ^ 32"
    by (simp_all add: s0_def)
  note i = mm_init_valid[OF a]
  show "valid_heap heap1 [(4096, False)]" using i(2) by (simp add: heap1_def)
  show "heap_listp heap1 = 8" using i(3) by (simp add: heap1_def s0_def)
  show "mem_brk heap1 = 4112" using i(4) by (simp add: heap1_def s0_def)
  show "mem_max_addr heap1 = 20971520" using i(5) by (simp add: heap1_def s0_def)
  show "mm_init s0 = (heap1, 0)" using i(1) by (simp add: heap1_def prod_eq_iff)
qed

text \<open>One step of \<open>mm_malloc\<close> on a concrete list of blocks.\<close>

lemma malloc_step:
  assumes v: "valid_heap s bs" and n: "n \<noteq> 0" "unat n + 15 < 2 ^ 32" and a: "unat (adjust_size n) = a"
    and fit: "dropWhile (busy a) bs \<noteq> []"
  shows "mm_malloc s n = Some (after_malloc s n, Some (malloc_ptr (heap_listp s) bs a))"
    "valid_heap (after_malloc s n) (malloc_blocks bs a)"
    "heap_listp (after_malloc s n) = heap_listp s" "mem_brk (after_malloc s n) = mem_brk s"
    "mem_max_addr (after_malloc s n) = mem_max_addr s"
proof -
  have nf: "\<not> malloc_fails s bs a" using fit by (simp add: malloc_fails_def)
  from mm_malloc_valid[OF v n a[symmetric] nf] obtain s' where
    s': "mm_malloc s n = Some (s', Some (malloc_ptr (heap_listp s) bs a))"
    "valid_heap s' (malloc_blocks bs a)" "heap_listp s' = heap_listp s"
    "mem_max_addr s' = mem_max_addr s"
    and b: "mem_brk s' = (if dropWhile (busy a) bs = [] then mem_brk s + max a 4096 else mem_brk s)"
    by blast
  from b fit have b': "mem_brk s' = mem_brk s" by (simp only: if_False)
  have am: "after_malloc s n = s'" by (simp add: after_malloc_def s'(1))
  show "mm_malloc s n = Some (after_malloc s n, Some (malloc_ptr (heap_listp s) bs a))"
    "valid_heap (after_malloc s n) (malloc_blocks bs a)"
    "heap_listp (after_malloc s n) = heap_listp s" "mem_brk (after_malloc s n) = mem_brk s"
    "mem_max_addr (after_malloc s n) = mem_max_addr s"
    using s' b' by (simp_all add: am)
qed

lemma adjust_size_16: "unat (adjust_size 16) = 24"
  by (simp add: adjust_size_def)

lemma adjust_size_8: "unat (adjust_size 8) = 16"
  by (simp add: adjust_size_def)

lemma adjust_size_1: "unat (adjust_size 1) = 16"
  by (simp add: adjust_size_def)


lemmas list_eval = busy_def malloc_blocks_def malloc_ptr_def split_block_def coalesce_blocks_def
  coalesce_size_def prev_free_def next_free_def coalesce_ptr_def

lemma heapD2_valid:
  "mm_malloc heap1 16 = Some (heapD2, Some 16)" "valid_heap heapD2 [(24, True), (4072, False)]"
  "heap_listp heapD2 = 8" "mem_brk heapD2 = 4112" "mem_max_addr heapD2 = 20971520"
  using malloc_step[OF heap1_valid(1) _ _ adjust_size_16, folded heapD2_def]
  by (simp_all add: list_eval heap1_valid)

lemma heapD3_valid:
  "mm_malloc heapD2 16 = Some (heapD3, Some 40)" "valid_heap heapD3 [(24, True), (24, True), (4048, False)]"
  "heap_listp heapD3 = 8" "mem_brk heapD3 = 4112" "mem_max_addr heapD3 = 20971520"
  using malloc_step[OF heapD2_valid(2) _ _ adjust_size_16, folded heapD3_def]
  by (simp_all add: list_eval heapD2_valid)

lemma heapD4_valid:
  "valid_heap heapD4 [(24, False), (24, True), (4048, False)]"
  "heap_listp heapD4 = 8" "mem_brk heapD4 = 4112" "mem_max_addr heapD4 = 20971520"
  using mm_free_valid[of heapD3 "[]" 24 "[(24, True), (4048, False)]" 16, folded heapD4_def]
  by (simp_all add: list_eval heapD3_valid)

lemma heapD5_valid:
  "valid_heap heapD5 [(4096, False)]"
  "heap_listp heapD5 = 8" "mem_brk heapD5 = 4112" "mem_max_addr heapD5 = 20971520"
  using mm_free_valid[of heapD4 "[(24, False)]" 24 "[(4048, False)]" 40, folded heapD5_def]
  by (simp_all add: list_eval heapD4_valid)

lemma heapE_valid:
  "mm_malloc heapD3 16 = Some (heapE, Some 64)"
  "valid_heap heapE [(24, True), (24, True), (24, True), (4024, False)]"
  "heap_listp heapE = 8" "mem_brk heapE = 4112" "mem_max_addr heapE = 20971520"
  using malloc_step[OF heapD3_valid(2) _ _ adjust_size_16, folded heapE_def]
  by (simp_all add: list_eval heapD3_valid)

lemma heapA2_valid:
  "mm_malloc heap1 8 = Some (heapA2, Some 16)" "valid_heap heapA2 [(16, True), (4080, False)]"
  "heap_listp heapA2 = 8" "mem_brk heapA2 = 4112" "mem_max_addr heapA2 = 20971520"
  using malloc_step[OF heap1_valid(1) _ _ adjust_size_8, folded heapA2_def]
  by (simp_all add: list_eval heap1_valid)

lemma heapA3_valid:
  "mm_malloc heapA2 16 = Some (heapA3, Some 32)" "valid_heap heapA3 [(16, True), (24, True), (4056, False)]"
  "heap_listp heapA3 = 8" "mem_brk heapA3 = 4112" "mem_max_addr heapA3 = 20971520"
  using malloc_step[OF heapA2_valid(2) _ _ adjust_size_16, folded heapA3_def]
  by (simp_all add: list_eval heapA2_valid)

lemma heapA4_valid:
  "mm_malloc heapA3 8 = Some (heapA4, Some 56)"
  "valid_heap heapA4 [(16, True), (24, True), (16, True), (4040, False)]"
  "heap_listp heapA4 = 8" "mem_brk heapA4 = 4112" "mem_max_addr heapA4 = 20971520"
  using malloc_step[OF heapA3_valid(2) _ _ adjust_size_8, folded heapA4_def]
  by (simp_all add: list_eval heapA3_valid)

lemma heapA5_valid:
  "valid_heap heapA5 [(16, True), (24, False), (16, True), (4040, False)]"
  "heap_listp heapA5 = 8" "mem_brk heapA5 = 4112" "mem_max_addr heapA5 = 20971520"
  using mm_free_valid[of heapA4 "[(16, True)]" 24 "[(16, True), (4040, False)]" 32, folded heapA5_def]
  by (simp_all add: list_eval heapA4_valid)

lemma heapA6_valid:
  "mm_malloc heapA5 1 = Some (heapA6, Some 32)"
  "valid_heap heapA6 [(16, True), (24, True), (16, True), (4040, False)]"
  "heap_listp heapA6 = 8" "mem_brk heapA6 = 4112" "mem_max_addr heapA6 = 20971520"
  using malloc_step[OF heapA5_valid(1) _ _ adjust_size_1, folded heapA6_def]
  by (simp_all add: list_eval heapA5_valid)


lemma block_reads:
  assumes "valid_heap s (pre @ (c, al) # post)" and "bp = heap_listp s + 8 + total pre"
  shows "unat (GET_SIZE (mem s) (HDRP bp)) = c" "GET_ALLOC (mem s) (HDRP bp) = (if al then 1 else 0)"
    "FTRP (mem s) bp = bp + c - 8" "GET (mem s) (FTRP (mem s) bp) = GET (mem s) (HDRP bp)"
    "GET (mem s) (HDRP bp) = tag c al"
proof -
  note blk = valid_heap_block[OF assms]
  show u: "unat (GET_SIZE (mem s) (HDRP bp)) = c"
    using GET_SIZE_tag[OF blk(1,4,5)] by (simp add: HDRP_def WSIZE_def)
  show "GET_ALLOC (mem s) (HDRP bp) = (if al then 1 else 0)"
    using GET_ALLOC_tag[OF blk(1,4)] by (simp add: HDRP_def WSIZE_def)
  show f: "FTRP (mem s) bp = bp + c - 8" using u by (simp add: FTRP_def DSIZE_def)
  show "GET (mem s) (FTRP (mem s) bp) = GET (mem s) (HDRP bp)"
    using blk(1,2) by (simp add: f HDRP_def WSIZE_def)
  show "GET (mem s) (HDRP bp) = tag c al" using blk(1) by (simp add: HDRP_def WSIZE_def)
qed

section \<open>The claims\<close>

text \<open>
  C5. In a heap that satisfies the invariants, \<open>find_fit asize\<close> returns, and what it returns
  is the result of first fit over the real blocks in address order: the first block that is
  free and at least \<open>asize\<close> bytes long, and the null pointer when the scan reaches the
  epilogue without one. (The loop starts at the prologue, which is allocated and therefore
  never a fit.) The function has no state among its results: it only reads.
\<close>

theorem C5_find_fit_first_fit:
  assumes "valid_heap s bs"
  shows "find_fit s asize = Some (first_fit (heap_listp s + 8) bs (unat asize))"
  by (rule find_fit_valid[OF assms])

theorem C5_find_fit_first_fit_witness:
  "valid_heap heapA5 [(16, True), (24, False), (16, True), (4040, False)]
   \<and> find_fit heapA5 16 = Some (Some 32) \<and> find_fit heapA5 32 = Some (Some 72)
   \<and> find_fit heapA5 5000 = Some None"
  using C5_find_fit_first_fit[OF heapA5_valid(1)] by (simp add: heapA5_valid)

text \<open>
  C3. For a free block \<open>b\<close> of size \<open>sz\<close> in a heap that satisfies the invariants (its
  neighbours may be free), \<open>coalesce\<close> follows the four cases. The predecessor is the last
  block of \<open>pre\<close>, or the prologue, which is allocated; the successor is the first block of
  \<open>post\<close>, or the epilogue, which is allocated. With both allocated the state and the
  pointer are returned unchanged. With only the successor free the result is \<open>b\<close> with the
  two sizes added; with only the predecessor free it is the predecessor's address with the
  two sizes added; with both free it is the predecessor's address with the three sizes
  added. In every case the block returned has the same word as header and as footer, with
  the allocation bit clear, and the heap satisfies the invariants with the merged list.
\<close>

theorem C3_coalesce_four_cases:
  assumes "valid_heap s (pre @ (sz, False) # post)" and "bp = heap_listp s + 8 + total pre"
  shows "(\<not> prev_free pre \<and> \<not> next_free post \<longrightarrow> coalesce s bp = (s, bp))
       \<and> (\<not> prev_free pre \<and> next_free post \<longrightarrow>
            snd (coalesce s bp) = bp
            \<and> valid_heap (fst (coalesce s bp)) (pre @ (sz + fst (hd post), False) # tl post))
       \<and> (prev_free pre \<and> \<not> next_free post \<longrightarrow>
            snd (coalesce s bp) = heap_listp s + 8 + total (butlast pre)
            \<and> snd (coalesce s bp) = bp - fst (last pre)
            \<and> valid_heap (fst (coalesce s bp)) (butlast pre @ (fst (last pre) + sz, False) # post))
       \<and> (prev_free pre \<and> next_free post \<longrightarrow>
            snd (coalesce s bp) = heap_listp s + 8 + total (butlast pre)
            \<and> snd (coalesce s bp) = bp - fst (last pre)
            \<and> valid_heap (fst (coalesce s bp))
                 (butlast pre @ (fst (last pre) + sz + fst (hd post), False) # tl post))
       \<and> GET (mem (fst (coalesce s bp))) (HDRP (snd (coalesce s bp))) = tag (coalesce_size pre sz post) False
       \<and> GET (mem (fst (coalesce s bp))) (FTRP (mem (fst (coalesce s bp))) (snd (coalesce s bp)))
           = tag (coalesce_size pre sz post) False"
proof -
  note cv = coalesce_valid[OF assms]
  let ?s' = "fst (coalesce s bp)"
  let ?A = "if prev_free pre then butlast pre else pre"
  let ?B = "if next_free post then tl post else post"
  have sp: "snd (coalesce s bp) = coalesce_ptr pre bp" by (simp add: cv(1))
  have v': "valid_heap ?s' (?A @ (coalesce_size pre sz post, False) # ?B)"
    using cv(2) by (simp add: coalesce_blocks_def)
  have p': "coalesce_ptr pre bp = heap_listp ?s' + 8 + total ?A" using cv(3) by simp
  note blk = valid_heap_block[OF v' p']
  have hd: "GET (mem ?s') (HDRP (snd (coalesce s bp))) = tag (coalesce_size pre sz post) False"
    using blk(1) by (simp add: sp HDRP_def WSIZE_def)
  have "FTRP (mem ?s') (coalesce_ptr pre bp) = coalesce_ptr pre bp + coalesce_size pre sz post - 8"
    using GET_SIZE_tag[OF blk(1,4,5)] by (simp add: FTRP_def HDRP_def WSIZE_def DSIZE_def)
  then have ft: "GET (mem ?s') (FTRP (mem ?s') (snd (coalesce s bp))) = tag (coalesce_size pre sz post) False"
    using blk(2) by (simp add: sp)
  have c1: "\<not> prev_free pre \<and> \<not> next_free post \<longrightarrow> coalesce s bp = (s, bp)"
    by (simp add: cv(1) coalesce_ptr_def)
  have c2: "\<not> prev_free pre \<and> next_free post \<longrightarrow>
            snd (coalesce s bp) = bp
            \<and> valid_heap ?s' (pre @ (sz + fst (hd post), False) # tl post)"
    using v' by (auto simp: sp coalesce_ptr_def coalesce_size_def)
  have c3: "prev_free pre \<and> \<not> next_free post \<longrightarrow>
            snd (coalesce s bp) = heap_listp s + 8 + total (butlast pre)
            \<and> snd (coalesce s bp) = bp - fst (last pre)
            \<and> valid_heap ?s' (butlast pre @ (fst (last pre) + sz, False) # post)"
    using v' cv(3) by (auto simp: sp coalesce_ptr_def coalesce_size_def)
  have c4: "prev_free pre \<and> next_free post \<longrightarrow>
            snd (coalesce s bp) = heap_listp s + 8 + total (butlast pre)
            \<and> snd (coalesce s bp) = bp - fst (last pre)
            \<and> valid_heap ?s' (butlast pre @ (fst (last pre) + sz + fst (hd post), False) # tl post)"
    using v' cv(3) by (auto simp: sp coalesce_ptr_def coalesce_size_def)
  from c1 c2 c3 c4 hd ft show ?thesis by blast
qed

lemma mark_free_valid:
  assumes "valid_heap s (pre @ (sz, al) # post)" and "bp = heap_listp s + 8 + total pre"
  shows "valid_heap (mark_free s bp sz) (pre @ (sz, False) # post)"
    "heap_listp (mark_free s bp sz) = heap_listp s"
  using mark_valid[OF assms, of False] by (simp_all add: mark_free_def)

theorem C3_coalesce_four_cases_witness:
  "valid_heap heapD4 ([] @ (24, False) # [(24, True), (4048, False)])
   \<and> coalesce heapD4 16 = (heapD4, 16)
   \<and> valid_heap (mark_free heapD3 40 24) ([(24, True)] @ (24, False) # [(4048, False)])
   \<and> snd (coalesce (mark_free heapD3 40 24) 40) = 40
   \<and> valid_heap (fst (coalesce (mark_free heapD3 40 24) 40)) [(24, True), (4072, False)]
   \<and> valid_heap (mark_free (mark_free heapE 16 24) 40 24) ([(24, False)] @ (24, False) # [(24, True), (4024, False)])
   \<and> snd (coalesce (mark_free (mark_free heapE 16 24) 40 24) 40) = 16
   \<and> valid_heap (fst (coalesce (mark_free (mark_free heapE 16 24) 40 24) 40))
        [(48, False), (24, True), (4024, False)]
   \<and> valid_heap (mark_free heapD4 40 24) ([(24, False)] @ (24, False) # [(4048, False)])
   \<and> snd (coalesce (mark_free heapD4 40 24) 40) = 16
   \<and> valid_heap (fst (coalesce (mark_free heapD4 40 24) 40)) [(4096, False)]"
proof -
  have v1: "valid_heap heapD4 ([] @ (24, False) # [(24, True), (4048, False)])"
    by (simp add: heapD4_valid)
  have b1: "16 = heap_listp heapD4 + 8 + total []" by (simp add: heapD4_valid)
  have v2: "valid_heap (mark_free heapD3 40 24) ([(24, True)] @ (24, False) # [(4048, False)])"
    using mark_free_valid(1)[of heapD3 "[(24, True)]" 24 True "[(4048, False)]" 40]
    by (simp add: heapD3_valid)
  have b2: "40 = heap_listp (mark_free heapD3 40 24) + 8 + total [(24, True)]"
    by (simp add: mark_free_def heapD3_valid)
  have v3a: "valid_heap (mark_free heapE 16 24) ([] @ (24, False) # [(24, True), (24, True), (4024, False)])"
    using mark_free_valid(1)[of heapE "[]" 24 True "[(24, True), (24, True), (4024, False)]" 16]
    by (simp add: heapE_valid)
  have v3: "valid_heap (mark_free (mark_free heapE 16 24) 40 24)
              ([(24, False)] @ (24, False) # [(24, True), (4024, False)])"
    using mark_free_valid(1)[of "mark_free heapE 16 24" "[(24, False)]" 24 True "[(24, True), (4024, False)]" 40] v3a
    by (simp add: mark_free_def heapE_valid)
  have b3: "40 = heap_listp (mark_free (mark_free heapE 16 24) 40 24) + 8 + total [(24, False)]"
    by (simp add: mark_free_def heapE_valid)
  have v4: "valid_heap (mark_free heapD4 40 24) ([(24, False)] @ (24, False) # [(4048, False)])"
    using mark_free_valid(1)[of heapD4 "[(24, False)]" 24 True "[(4048, False)]" 40]
    by (simp add: heapD4_valid)
  have b4: "40 = heap_listp (mark_free heapD4 40 24) + 8 + total [(24, False)]"
    by (simp add: mark_free_def heapD4_valid)
  note w1 = C3_coalesce_four_cases[OF v1 b1]
  note w2 = C3_coalesce_four_cases[OF v2 b2]
  note w3 = C3_coalesce_four_cases[OF v3 b3]
  note w4 = C3_coalesce_four_cases[OF v4 b4]
  have "coalesce heapD4 16 = (heapD4, 16)" using w1 by (simp add: prev_free_def next_free_def)
  moreover have "snd (coalesce (mark_free heapD3 40 24) 40) = 40
     \<and> valid_heap (fst (coalesce (mark_free heapD3 40 24) 40)) [(24, True), (4072, False)]"
    using w2 by (simp add: prev_free_def next_free_def)
  moreover have "snd (coalesce (mark_free (mark_free heapE 16 24) 40 24) 40) = 16
     \<and> valid_heap (fst (coalesce (mark_free (mark_free heapE 16 24) 40 24) 40))
        [(48, False), (24, True), (4024, False)]"
    using w3 by (simp add: prev_free_def next_free_def)
  moreover have "snd (coalesce (mark_free heapD4 40 24) 40) = 16
     \<and> valid_heap (fst (coalesce (mark_free heapD4 40 24) 40)) [(4096, False)]"
    using w4 by (simp add: prev_free_def next_free_def)
  ultimately show ?thesis using v1 v2 v3 v4 by simp
qed


text \<open>
  C8, as stated, fails. In scenario D the two blocks of 24 bytes each are released while
  the rest of the first chunk, a free block of 4048 bytes, follows them. The second release
  finds both neighbours free, so the block that results has 4096 bytes, not 24 + 24.
\<close>

theorem C8_scenario_D_counterexample:
  "mm_init s0 = (heap1, 0)
   \<and> mm_malloc heap1 16 = Some (heapD2, Some 16) \<and> mm_malloc heapD2 16 = Some (heapD3, Some 40)
   \<and> heapD5 = mm_free (mm_free heapD3 16) 40
   \<and> unat (GET_SIZE (mem heapD3) (HDRP 16)) = 24 \<and> unat (GET_SIZE (mem heapD3) (HDRP 40)) = 24
   \<and> GET_ALLOC (mem heapD5) (HDRP 16) = 0
   \<and> unat (GET_SIZE (mem heapD5) (HDRP 16)) \<noteq> 24 + 24"
proof -
  have b16: "16 = heap_listp heapD3 + 8 + total []" and b40: "40 = heap_listp heapD3 + 8 + total [(24, True)]"
    by (simp_all add: heapD3_valid)
  have v3: "valid_heap heapD3 ([] @ (24, True) # [(24, True), (4048, False)])"
    "valid_heap heapD3 ([(24, True)] @ (24, True) # [(4048, False)])"
    by (simp_all add: heapD3_valid)
  have v5: "valid_heap heapD5 ([] @ (4096, False) # [])" by (simp add: heapD5_valid)
  have b5: "16 = heap_listp heapD5 + 8 + total []" by (simp add: heapD5_valid)
  have d5: "heapD5 = mm_free (mm_free heapD3 16) 40" by (simp add: heapD5_def heapD4_def)
  show ?thesis
    using block_reads(1)[OF v3(1) b16] block_reads(1)[OF v3(2) b40]
      block_reads(1,2)[OF v5 b5] d5
    by (simp add: heap1_valid heapD2_valid heapD3_valid)
qed

text \<open>
  C8, amended. In the sequence \<open>init(); p1 = allocate(16); p2 = allocate(16); release(p1);
  release(p2)\<close> the two released blocks end up merged, together with the free block that
  follows them, into a single free block: its size is the sum of the sizes of the two
  blocks and of that free block (24 + 24 + 4048 = 4096), it is the only block of the heap,
  and the heap has not grown since \<open>init\<close>.
\<close>

theorem C8_scenario_D:
  "mm_init s0 = (heap1, 0)
   \<and> mm_malloc heap1 16 = Some (heapD2, Some 16) \<and> mm_malloc heapD2 16 = Some (heapD3, Some 40)
   \<and> heapD5 = mm_free (mm_free heapD3 16) 40
   \<and> valid_heap heapD3 [(24, True), (24, True), (4048, False)]
   \<and> valid_heap heapD5 [(4096, False)]
   \<and> GET_ALLOC (mem heapD5) (HDRP 16) = 0
   \<and> unat (GET_SIZE (mem heapD5) (HDRP 16)) = 24 + 24 + 4048
   \<and> mem_brk heapD5 = mem_brk heap1"
proof -
  have v5: "valid_heap heapD5 ([] @ (4096, False) # [])" by (simp add: heapD5_valid)
  have b5: "16 = heap_listp heapD5 + 8 + total []" by (simp add: heapD5_valid)
  have d5: "heapD5 = mm_free (mm_free heapD3 16) 40" by (simp add: heapD5_def heapD4_def)
  show ?thesis
    using block_reads(1,2)[OF v5 b5] d5
    by (simp add: heap1_valid heapD2_valid heapD3_valid heapD5_valid)
qed

text \<open>
  C1, as stated, fails: the block that \<open>allocate(n)\<close> returns need not have the adjusted
  size. After \<open>p1 = allocate(8); p2 = allocate(16); p3 = allocate(8); release(p2)\<close> the
  first free block has 24 bytes. \<open>allocate(1)\<close> has the adjusted size 16; the rest of 8
  bytes is too small to split off, and the block returned has 24 bytes.
\<close>

theorem C1_allocate_size_counterexample:
  "mm_init s0 = (heap1, 0)
   \<and> mm_malloc heap1 8 = Some (heapA2, Some 16) \<and> mm_malloc heapA2 16 = Some (heapA3, Some 32)
   \<and> mm_malloc heapA3 8 = Some (heapA4, Some 56) \<and> heapA5 = mm_free heapA4 32
   \<and> mm_malloc heapA5 1 = Some (heapA6, Some 32)
   \<and> unat (adjust_size 1) = 16
   \<and> GET_ALLOC (mem heapA6) (HDRP 32) = 1
   \<and> unat (GET_SIZE (mem heapA6) (HDRP 32)) = 24"
proof -
  have v6: "valid_heap heapA6 ([(16, True)] @ (24, True) # [(16, True), (4040, False)])"
    by (simp add: heapA6_valid)
  have b6: "32 = heap_listp heapA6 + 8 + total [(16, True)]" by (simp add: heapA6_valid)
  have a5: "heapA5 = mm_free heapA4 32" by (simp add: heapA5_def)
  show ?thesis
    using block_reads(1,2)[OF v6 b6] a5
    by (simp add: heap1_valid heapA2_valid heapA3_valid heapA4_valid heapA6_valid adjust_size_1)
qed


lemma mm_malloc_fail:
  assumes "valid_heap s bs" and "n \<noteq> 0" and "malloc_fails s bs (unat (adjust_size n))"
  shows "mm_malloc s n = Some (s, None)"
  using mm_malloc_cases(2)[OF assms(1,2) refl refl] assms(3) by (simp add: malloc_fails_def)

lemma mm_malloc_zero: "mm_malloc s 0 = Some (s, None)"
  by (simp add: mm_malloc_def)

lemma mm_malloc_block:
  assumes v: "valid_heap s bs" and n0: "n \<noteq> 0" and nb: "unat n + 15 < 2 ^ 32"
    and m: "mm_malloc s n = Some (s', Some p)" and a: "a = unat (adjust_size n)"
  shows "\<exists>pre c post. valid_heap s' (pre @ (c, True) # post) \<and> p = heap_listp s' + 8 + total pre
           \<and> (c = a \<or> c = a + 8) \<and> pre @ (c, True) # post = malloc_blocks bs a
           \<and> p = malloc_ptr (heap_listp s) bs a"
proof -
  have nf: "\<not> malloc_fails s bs a"
    using mm_malloc_fail[OF v n0] m by (auto simp: a)
  from mm_malloc_before_place[OF v n0 a nf] obtain s1 pre c post where
    m1: "mm_malloc s n = Some (place s1 (malloc_ptr (heap_listp s) bs a) (adjust_size n),
                                 Some (malloc_ptr (heap_listp s) bs a))"
    and v1: "valid_heap s1 (pre @ (c, False) # post)" and ac: "a \<le> c"
    and ptr: "malloc_ptr (heap_listp s) bs a = heap_listp s1 + 8 + total pre"
    and mb: "malloc_blocks bs a = pre @ split_block c a @ post"
    by blast
  from m m1 have s': "s' = place s1 p (adjust_size n)" and p: "p = malloc_ptr (heap_listp s) bs a"
    by auto
  have a16: "16 \<le> a" "8 dvd a"
    using adjust_size_bounds(1)[OF nb] adjust_size_dvd[of n] by (simp_all add: a)
  have c8: "8 dvd c" using valid_heap_block(4)[OF v1 ptr] .
  have vs: "valid_heap s' (pre @ split_block c a @ post)"
    unfolding s' p by (rule place_valid_split[OF v1 ptr a a16(2,1) ac])
  have hl: "heap_listp s' = heap_listp s1" by (simp add: s')
  show ?thesis
  proof (cases "16 \<le> c - a")
    case True
    then have "valid_heap s' (pre @ (a, True) # ((c - a, False) # post))"
      using vs by (simp add: split_block_def)
    moreover have "pre @ (a, True) # ((c - a, False) # post) = malloc_blocks bs a"
      using True by (simp add: mb split_block_def)
    ultimately show ?thesis using ptr p hl by (intro exI[of _ pre] exI[of _ a] exI[of _ "(c - a, False) # post"]) simp
  next
    case False
    from c8 a16(2) False ac have "c = a \<or> c = a + 8" by presburger
    moreover have "valid_heap s' (pre @ (c, True) # post)" using vs False by (simp add: split_block_def)
    moreover have "pre @ (c, True) # post = malloc_blocks bs a"
      using False by (simp add: mb split_block_def)
    ultimately show ?thesis using ptr p hl by (intro exI[of _ pre] exI[of _ c] exI[of _ post]) simp
  qed
qed

text \<open>
  C1, amended. For every request \<open>n\<close> with \<open>0 < n \<le> 2 ^ 32 - 16\<close> (so that \<open>n + 15\<close> does not
  wrap around) from a heap that satisfies the invariants: when \<open>allocate(n)\<close> returns a
  pointer that is not null, header and footer of the block hold the same word, the block is
  marked allocated, and its size is the adjusted size or the adjusted size plus 8, where
  the adjusted size is 16 for \<open>n \<le> 8\<close> and \<open>n + 8\<close> rounded up to a multiple of 8
  otherwise. The size is a multiple of 8 and at least \<open>n + 8\<close>.
\<close>

theorem C1_allocate_block:
  assumes "valid_heap s bs" and "n \<noteq> 0" and "unat n + 15 < 2 ^ 32"
    and "mm_malloc s n = Some (s', Some p)" and "a = unat (adjust_size n)"
  shows "a = (if unat n \<le> 8 then 16 else 8 * ((unat n + 8 + 7) div 8))
       \<and> GET (mem s') (FTRP (mem s') p) = GET (mem s') (HDRP p)
       \<and> GET_ALLOC (mem s') (HDRP p) = 1
       \<and> (unat (GET_SIZE (mem s') (HDRP p)) = a \<or> unat (GET_SIZE (mem s') (HDRP p)) = a + 8)
       \<and> unat n + 8 \<le> unat (GET_SIZE (mem s') (HDRP p))
       \<and> 8 dvd unat (GET_SIZE (mem s') (HDRP p))"
proof -
  from mm_malloc_block[OF assms] obtain pre c post where
    v': "valid_heap s' (pre @ (c, True) # post)" and p: "p = heap_listp s' + 8 + total pre"
    and c: "c = a \<or> c = a + 8"
    by blast
  note r = block_reads[OF v' p]
  note blk = valid_heap_block[OF v' p]
  have "a = (if unat n \<le> 8 then 16 else 8 * ((unat n + 8 + 7) div 8))"
    using adjust_size_unat[OF assms(3)] by (simp add: assms(5) add.assoc)
  moreover have "unat n + 8 \<le> c"
    using adjust_size_bounds(2)[OF assms(3)] c by (auto simp: assms(5))
  ultimately show ?thesis using r(1,2,4) c blk(4) by auto
qed

theorem C1_allocate_block_witness:
  "valid_heap heapA5 [(16, True), (24, False), (16, True), (4040, False)]
   \<and> (1 :: word32) \<noteq> 0 \<and> unat (1 :: word32) + 15 < 2 ^ 32
   \<and> mm_malloc heapA5 1 = Some (heapA6, Some 32)
   \<and> unat (adjust_size 1) = 16
   \<and> GET (mem heapA6) (FTRP (mem heapA6) 32) = GET (mem heapA6) (HDRP 32)
   \<and> GET_ALLOC (mem heapA6) (HDRP 32) = 1
   \<and> unat (GET_SIZE (mem heapA6) (HDRP 32)) = 16 + 8
   \<and> valid_heap heap1 [(4096, False)]
   \<and> mm_malloc heap1 16 = Some (heapD2, Some 16)
   \<and> unat (adjust_size 16) = 24
   \<and> GET (mem heapD2) (FTRP (mem heapD2) 16) = GET (mem heapD2) (HDRP 16)
   \<and> unat (GET_SIZE (mem heapD2) (HDRP 16)) = 24"
proof -
  have n1: "(1 :: word32) \<noteq> 0" and n2: "unat (1 :: word32) + 15 < 2 ^ 32" by simp_all
  have n3: "(16 :: word32) \<noteq> 0" and n4: "unat (16 :: word32) + 15 < 2 ^ 32" by simp_all
  note w1 = C1_allocate_block[OF heapA5_valid(1) n1 n2 heapA6_valid(1) adjust_size_1[symmetric]]
  note w2 = C1_allocate_block[OF heap1_valid(1) n3 n4 heapD2_valid(1) adjust_size_16[symmetric]]
  have c1: "GET (mem heapA6) (FTRP (mem heapA6) 32) = GET (mem heapA6) (HDRP 32)"
    and c2: "GET_ALLOC (mem heapA6) (HDRP 32) = 1"
    using w1 by blast+
  have c3: "GET (mem heapD2) (FTRP (mem heapD2) 16) = GET (mem heapD2) (HDRP 16)"
    using w2 by blast
  have v6: "valid_heap heapA6 ([(16, True)] @ (24, True) # [(16, True), (4040, False)])"
    by (simp add: heapA6_valid)
  have b6: "32 = heap_listp heapA6 + 8 + total [(16, True)]" by (simp add: heapA6_valid)
  have v2: "valid_heap heapD2 ([] @ (24, True) # [(4072, False)])" by (simp add: heapD2_valid)
  have b2: "16 = heap_listp heapD2 + 8 + total []" by (simp add: heapD2_valid)
  have c4: "unat (GET_SIZE (mem heapA6) (HDRP 32)) = 16 + 8"
    using block_reads(1)[OF v6 b6] by simp
  have c5: "unat (GET_SIZE (mem heapD2) (HDRP 16)) = 24"
    using block_reads(1)[OF v2 b2] by simp
  show ?thesis
    by (intro conjI n1 n2 c1 c2 c3 c4 c5 heapA5_valid(1) heapA6_valid(1) adjust_size_1 heap1_valid(1)
        heapD2_valid(1) adjust_size_16)
qed


text \<open>Every call of \<open>mm_malloc\<close> on a heap that satisfies the invariants returns.\<close>

lemma mm_malloc_returns:
  assumes v: "valid_heap s bs"
  shows "\<exists>s' r. mm_malloc s n = Some (s', r)"
proof (cases "n = 0")
  case True
  then show ?thesis by (simp add: mm_malloc_zero)
next
  case False
  show ?thesis
  proof (cases "malloc_fails s bs (unat (adjust_size n))")
    case True
    from mm_malloc_fail[OF v False True] show ?thesis by simp
  next
    case nf: False
    from mm_malloc_before_place[OF v False refl nf] show ?thesis by blast
  qed
qed

lemma mm_malloc_aligned:
  assumes v: "valid_heap s bs" and m: "mm_malloc s n = Some (s', Some p)"
  shows "8 dvd p" "16 \<le> p" "p < mem_brk s'"
proof -
  have n0: "n \<noteq> 0" using m by (auto simp: mm_malloc_zero)
  have nf: "\<not> malloc_fails s bs (unat (adjust_size n))"
    using mm_malloc_fail[OF v n0] m by auto
  from mm_malloc_before_place[OF v n0 refl nf] obtain s1 pre c post where
    m1: "mm_malloc s n = Some (place s1 (malloc_ptr (heap_listp s) bs (unat (adjust_size n))) (adjust_size n),
                                 Some (malloc_ptr (heap_listp s) bs (unat (adjust_size n))))"
    and v1: "valid_heap s1 (pre @ (c, False) # post)"
    and ptr: "malloc_ptr (heap_listp s) bs (unat (adjust_size n)) = heap_listp s1 + 8 + total pre"
    by blast
  from m m1 have p: "p = malloc_ptr (heap_listp s) bs (unat (adjust_size n))"
    and s': "s' = place s1 p (adjust_size n)" by auto
  note blk = valid_heap_block[OF v1 ptr]
  show "8 dvd p" "16 \<le> p" using blk(6,7) by (simp_all add: p)
  have "mem_brk s1 = heap_listp s1 + 8 + total (pre @ (c, False) # post)"
    using v1 by (simp add: valid_heap_def)
  then show "p < mem_brk s'" using blk(3) by (simp add: s' p ptr)
qed

lemma mm_realloc_ptr:
  assumes "mm_realloc s ptr n = Some (s', Some p)"
  shows "\<exists>s1. mm_malloc s n = Some (s1, Some p)"
  using assms by (auto simp: mm_realloc_def Let_def split: option.splits if_splits)

text \<open>
  C9. Every pointer that \<open>allocate\<close> or \<open>reallocate\<close> returns from a heap that satisfies the
  invariants, for any request size, is either null or a payload address that is a multiple
  of 8 (as an offset from the start of the arena, which the memory system aligns). The
  invariants include that \<open>heap_listp\<close> is a multiple of 8, which \<open>mm_init\<close> establishes by
  the padding word, and that every block size is a multiple of 8.
\<close>

theorem C9_payload_aligned:
  assumes "valid_heap s bs"
  shows "(mm_malloc s n = Some (s', Some p) \<longrightarrow> p mod 8 = 0)
       \<and> (mm_realloc s ptr n = Some (s', Some p) \<longrightarrow> p mod 8 = 0)
       \<and> mm_malloc s n \<noteq> None"
proof -
  have a: "mm_malloc s n = Some (s', Some p) \<longrightarrow> p mod 8 = 0"
    using mm_malloc_aligned(1)[OF assms] by auto
  have b: "mm_realloc s ptr n = Some (s', Some p) \<longrightarrow> p mod 8 = 0"
    using mm_realloc_ptr[of s ptr n s' p] mm_malloc_aligned(1)[OF assms] by auto
  have c: "mm_malloc s n \<noteq> None" using mm_malloc_returns[OF assms, of n] by auto
  from a b c show ?thesis by blast
qed

theorem C9_payload_aligned_witness:
  "valid_heap heapA5 [(16, True), (24, False), (16, True), (4040, False)]
   \<and> mm_malloc heapA5 1 = Some (heapA6, Some 32) \<and> (32 :: nat) mod 8 = 0
   \<and> mm_realloc heapA5 None 1 = Some (heapA6, Some 32)
   \<and> mm_malloc heapA5 1 \<noteq> None"
proof -
  have r: "mm_realloc heapA5 None 1 = Some (heapA6, Some 32)"
    by (simp add: mm_realloc_def heapA6_valid(1))
  from C9_payload_aligned[OF heapA5_valid(1), of 1 heapA6 32 None] heapA5_valid(1) heapA6_valid(1) r
  show ?thesis by simp
qed


lemma mm_malloc_null_unchanged:
  assumes "mm_malloc s n = Some (s', None)"
  shows "s' = s"
proof (cases "n = 0")
  case True
  then show ?thesis using assms by (simp add: mm_malloc_zero)
next
  case False
  let ?w = "max (adjust_size n) CHUNKSIZE div 4"
  have "extend_heap s ?w = (s', None)"
    using assms False
    by (auto simp: mm_malloc_def Let_def split: option.splits prod.splits)
  then show ?thesis
    by (auto simp: extend_heap_alt Let_def split: option.splits prod.splits)
qed

lemma mm_malloc_growth_fails:
  assumes "n \<noteq> 0" and "find_fit s (adjust_size n) = Some None"
    and "mem_sbrk s (extend_size (max (adjust_size n) CHUNKSIZE div 4)) = None"
  shows "mm_malloc s n = Some (s, None)"
  using assms by (simp add: mm_malloc_def Let_def extend_heap_alt)

lemma mm_realloc_null_unchanged:
  assumes "mm_realloc s ptr n = Some (s', None)" and "n \<noteq> 0"
  shows "s' = s"
  using assms mm_malloc_null_unchanged[of s n]
  by (auto simp: mm_realloc_def Let_def split: option.splits if_splits)

lemma mm_init_second_fails:
  assumes "mem_brk s + 16 \<le> mem_max_addr s" and "mem_max_addr s < mem_brk s + 4112"
  shows "snd (mm_init s) = - 1" "mem_brk (fst (mm_init s)) = mem_brk s + 16"
    "heap_listp (fst (mm_init s)) = mem_brk s + 8"
    "GET (mem (fst (mm_init s))) (mem_brk s + 4) = PACK 8 1"
proof -
  have es: "extend_size (CHUNKSIZE div 4) = 4096"
    using extend_size_div4[of CHUNKSIZE] by (simp add: CHUNKSIZE_val)
  let ?p = "mem_brk s"
  define m4 where "m4 = PUT (PUT (PUT (PUT (mem s) ?p 0) (?p + 4) (PACK 8 1)) (?p + 8) (PACK 8 1))
                          (?p + 12) (PACK 0 1)"
  have init: "mm_init s = (s\<lparr>mem_brk := ?p + 16, mem := m4, heap_listp := ?p + 8\<rparr>, - 1)"
    using assms by (simp add: mm_init_def mem_sbrk_def WSIZE_def Let_def extend_heap_alt es m4_def)
  show "snd (mm_init s) = - 1" "mem_brk (fst (mm_init s)) = mem_brk s + 16"
    "heap_listp (fst (mm_init s)) = mem_brk s + 8"
    by (simp_all add: init)
  have "GET m4 (?p + 4) = PACK 8 1"
    unfolding m4_def by (simp add: GET_PUT_same GET_PUT_other)
  then show "GET (mem (fst (mm_init s))) (mem_brk s + 4) = PACK 8 1" by (simp add: init)
qed

text \<open>
  C7, as stated, fails for \<open>init\<close>: in an arena of 100 bytes its first request for 16
  bytes succeeds, it writes the prologue and the epilogue, and the request for the first
  chunk fails. \<open>init\<close> then reports failure, but the break has moved and the words are
  written.
\<close>

theorem C7_init_partial_counterexample:
  "snd (mm_init s_small) = - 1
   \<and> mem_brk s_small = 0 \<and> mem_brk (fst (mm_init s_small)) = 16
   \<and> GET (mem s_small) 4 = 0 \<and> GET (mem (fst (mm_init s_small))) 4 = 9
   \<and> fst (mm_init s_small) \<noteq> s_small"
proof -
  have a: "mem_brk s_small + 16 \<le> mem_max_addr s_small" "mem_max_addr s_small < mem_brk s_small + 4112"
    by (simp_all add: s_small_def)
  note i = mm_init_second_fails[OF a]
  have b: "mem_brk s_small = 0" by (simp add: s_small_def)
  have g: "GET (mem s_small) 4 = 0" by (simp add: s_small_def GET_def)
  have p: "PACK 8 1 = 9" by (simp add: PACK_def)
  have ne: "fst (mm_init s_small) \<noteq> s_small"
  proof
    assume "fst (mm_init s_small) = s_small"
    then have "mem_brk (fst (mm_init s_small)) = mem_brk s_small" by simp
    then show False using i(2) by (simp add: b)
  qed
  show ?thesis using i b g ne by (simp add: p)
qed


lemma mm_init_second_fails_words:
  assumes "mem_brk s + 16 \<le> mem_max_addr s" and "mem_max_addr s < mem_brk s + 4112"
  shows "GET (mem (fst (mm_init s))) (mem_brk s + 4) = 9"
    "GET (mem (fst (mm_init s))) (mem_brk s + 8) = 9"
    "GET (mem (fst (mm_init s))) (mem_brk s + 12) = 1"
proof -
  have es: "extend_size (CHUNKSIZE div 4) = 4096"
    using extend_size_div4[of CHUNKSIZE] by (simp add: CHUNKSIZE_val)
  let ?p = "mem_brk s"
  define m4 where "m4 = PUT (PUT (PUT (PUT (mem s) ?p 0) (?p + 4) (PACK 8 1)) (?p + 8) (PACK 8 1))
                          (?p + 12) (PACK 0 1)"
  have init: "mm_init s = (s\<lparr>mem_brk := ?p + 16, mem := m4, heap_listp := ?p + 8\<rparr>, - 1)"
    using assms by (simp add: mm_init_def mem_sbrk_def WSIZE_def Let_def extend_heap_alt es m4_def)
  have p: "PACK 8 1 = 9" "PACK 0 1 = 1" by (simp_all add: PACK_def)
  have "GET m4 (?p + 4) = 9" "GET m4 (?p + 8) = 9" "GET m4 (?p + 12) = 1"
    unfolding m4_def p by (simp_all add: GET_PUT_same GET_PUT_other)
  then show "GET (mem (fst (mm_init s))) (mem_brk s + 4) = 9"
    "GET (mem (fst (mm_init s))) (mem_brk s + 8) = 9"
    "GET (mem (fst (mm_init s))) (mem_brk s + 12) = 1"
    by (simp_all add: init)
qed


text \<open>
  C7, amended. Whenever the heap-growth primitive fails, \<open>allocate\<close> and \<open>reallocate\<close> return
  null and leave the state, and with it every byte of the heap, exactly as it was; so does
  \<open>allocate(0)\<close>. More generally, whenever \<open>allocate\<close>, or \<open>reallocate\<close> with a size other
  than 0, returns null, the state is unchanged. \<open>init\<close> is different: when its first
  request to the growth primitive succeeds and its second fails, it reports failure after
  the break has moved by 16 bytes and the prologue and epilogue are written: the words
  after the padding word are \<open>PACK(8, 1) = 9\<close>, \<open>PACK(8, 1) = 9\<close> and \<open>PACK(0, 1) = 1\<close>.
\<close>

theorem C7_failure_leaves_heap:
  "mm_malloc s 0 = Some (s, None)
   \<and> (n \<noteq> 0 \<and> find_fit s (adjust_size n) = Some None
        \<and> mem_sbrk s (extend_size (max (adjust_size n) CHUNKSIZE div 4)) = None
      \<longrightarrow> mm_malloc s n = Some (s, None) \<and> mm_realloc s None n = Some (s, None)
          \<and> mm_realloc s (Some q) n = Some (s, None))
   \<and> (mm_malloc s n = Some (s', None) \<longrightarrow> s' = s)
   \<and> (n \<noteq> 0 \<and> mm_realloc s ptr n = Some (s', None) \<longrightarrow> s' = s)
   \<and> (mem_brk s + 16 \<le> mem_max_addr s \<and> mem_max_addr s < mem_brk s + 4112
      \<longrightarrow> snd (mm_init s) = - 1 \<and> mem_brk (fst (mm_init s)) = mem_brk s + 16
          \<and> GET (mem (fst (mm_init s))) (mem_brk s + 4) = 9
          \<and> GET (mem (fst (mm_init s))) (mem_brk s + 8) = 9
          \<and> GET (mem (fst (mm_init s))) (mem_brk s + 12) = 1)"
proof -
  have a: "n \<noteq> 0 \<and> find_fit s (adjust_size n) = Some None
        \<and> mem_sbrk s (extend_size (max (adjust_size n) CHUNKSIZE div 4)) = None
      \<longrightarrow> mm_malloc s n = Some (s, None) \<and> mm_realloc s None n = Some (s, None)
          \<and> mm_realloc s (Some q) n = Some (s, None)"
    using mm_malloc_growth_fails[of n s] by (auto simp: mm_realloc_def)
  have b: "mm_malloc s n = Some (s', None) \<longrightarrow> s' = s"
    using mm_malloc_null_unchanged by blast
  have c: "n \<noteq> 0 \<and> mm_realloc s ptr n = Some (s', None) \<longrightarrow> s' = s"
    using mm_realloc_null_unchanged by blast
  have d: "mem_brk s + 16 \<le> mem_max_addr s \<and> mem_max_addr s < mem_brk s + 4112
      \<longrightarrow> snd (mm_init s) = - 1 \<and> mem_brk (fst (mm_init s)) = mem_brk s + 16
          \<and> GET (mem (fst (mm_init s))) (mem_brk s + 4) = 9
          \<and> GET (mem (fst (mm_init s))) (mem_brk s + 8) = 9
          \<and> GET (mem (fst (mm_init s))) (mem_brk s + 12) = 1"
    using mm_init_second_fails(1,2)[of s] mm_init_second_fails_words[of s] by blast
  from a b c d show ?thesis by (simp add: mm_malloc_zero)
qed

lemma heapF_valid:
  "valid_heap heapF [(4096, False)]" "heap_listp heapF = 8" "mem_brk heapF = 4112"
  "mem_max_addr heapF = 4112"
proof -
  have a: "8 dvd mem_brk s_exact" "mem_brk s_exact + 4112 \<le> mem_max_addr s_exact"
    "mem_max_addr s_exact < 2 ^ 32"
    by (simp_all add: s_exact_def)
  note i = mm_init_valid[OF a]
  show "valid_heap heapF [(4096, False)]" using i(2) by (simp add: heapF_def)
  show "heap_listp heapF = 8" using i(3) by (simp add: heapF_def s_exact_def)
  show "mem_brk heapF = 4112" using i(4) by (simp add: heapF_def s_exact_def)
  show "mem_max_addr heapF = 4112" using i(5) by (simp add: heapF_def s_exact_def)
qed

lemma adjust_size_5000: "adjust_size 5000 = 5008"
  by (simp add: adjust_size_def)

theorem C7_failure_leaves_heap_witness:
  "(5000 :: word32) \<noteq> 0 \<and> find_fit heapF (adjust_size 5000) = Some None
   \<and> mem_sbrk heapF (extend_size (max (adjust_size 5000) CHUNKSIZE div 4)) = None
   \<and> mm_malloc heapF 5000 = Some (heapF, None)
   \<and> mm_realloc heapF None 5000 = Some (heapF, None)
   \<and> mm_realloc heapF (Some 16) 5000 = Some (heapF, None)
   \<and> mem_brk s_small + 16 \<le> mem_max_addr s_small \<and> mem_max_addr s_small < mem_brk s_small + 4112
   \<and> snd (mm_init s_small) = - 1 \<and> mem_brk (fst (mm_init s_small)) = mem_brk s_small + 16
   \<and> GET (mem (fst (mm_init s_small))) (mem_brk s_small + 4) = 9
   \<and> GET (mem (fst (mm_init s_small))) (mem_brk s_small + 8) = 9
   \<and> GET (mem (fst (mm_init s_small))) (mem_brk s_small + 12) = 1"
proof -
  have n: "(5000 :: word32) \<noteq> 0" by simp
  have ff: "find_fit heapF (adjust_size 5000) = Some None"
    using find_fit_valid[OF heapF_valid(1), of "adjust_size 5000"]
    by (simp add: adjust_size_5000)
  have "extend_size (max (adjust_size 5000) CHUNKSIZE div 4) = max (adjust_size 5000) CHUNKSIZE"
    by (rule extend_size_div4) (simp add: adjust_size_5000 CHUNKSIZE_val)
  then have es: "extend_size (max (adjust_size 5000) CHUNKSIZE div 4) = 5008"
    by (simp add: adjust_size_5000 CHUNKSIZE_val)
  have sb: "mem_sbrk heapF (extend_size (max (adjust_size 5000) CHUNKSIZE div 4)) = None"
    unfolding es by (rule mem_sbrk_fail) (simp add: heapF_valid)
  have sm: "mem_brk s_small + 16 \<le> mem_max_addr s_small" "mem_max_addr s_small < mem_brk s_small + 4112"
    by (simp_all add: s_small_def)
  note w = C7_failure_leaves_heap[of heapF 5000 16 heapF None]
  note w' = C7_failure_leaves_heap[of s_small 5000 16 s_small None]
  have m: "mm_malloc heapF 5000 = Some (heapF, None)" "mm_realloc heapF None 5000 = Some (heapF, None)"
    "mm_realloc heapF (Some 16) 5000 = Some (heapF, None)"
    using w n ff sb by blast+
  have i: "snd (mm_init s_small) = - 1" "mem_brk (fst (mm_init s_small)) = mem_brk s_small + 16"
    "GET (mem (fst (mm_init s_small))) (mem_brk s_small + 4) = 9"
    "GET (mem (fst (mm_init s_small))) (mem_brk s_small + 8) = 9"
    "GET (mem (fst (mm_init s_small))) (mem_brk s_small + 12) = 1"
    using w' sm by blast+
  show ?thesis by (intro conjI n ff sb m sm i)
qed


lemma tag_0_True: "tag 0 True = 1" "PACK 0 1 = 1"
  by (simp_all add: tag_def PACK_def)

lemma GET_SIZE_one: "GET m p = 1 \<Longrightarrow> unat (GET_SIZE m p) = 0"
  using GET_SIZE_tag[of m p 0 True] by (simp add: tag_0_True)

text \<open>\<open>place\<close> with the request size 0, which \<open>mm_malloc\<close> computes when the size wraps.\<close>

lemma place_zero:
  assumes hd: "GET (mem s) (bp - 4) = tag c False" and c: "8 dvd c" "16 \<le> c" "c < 2 ^ 32"
    and bp: "8 \<le> bp"
  shows "place s bp 0 =
           s\<lparr>mem := PUT (PUT (PUT (PUT (mem s) (bp - 4) 1) (bp - 8) 1) (bp - 4) (tag c False))
                        (bp + c - 8) (tag c False)\<rparr>"
proof -
  let ?m = "mem s"
  have cs: "GET_SIZE ?m (HDRP bp) = of_nat c"
    using GET_SIZE_tag_word[OF hd c(1)] by (simp add: HDRP_def WSIZE_def)
  have cmp: "(16 \<le> (of_nat c :: word32)) = True" using c by (simp add: le16_of_nat)
  define m1 where "m1 = PUT ?m (bp - 4) 1"
  have g1: "GET m1 (bp - 4) = 1" by (simp add: m1_def GET_PUT_same)
  have f1: "FTRP m1 bp = bp - 8"
    using GET_SIZE_one[OF g1] by (simp add: FTRP_def HDRP_def WSIZE_def DSIZE_def)
  define m2 where "m2 = PUT m1 (bp - 8) 1"
  have "GET m2 (bp - 4) = GET m1 (bp - 4)"
    unfolding m2_def using bp by (intro GET_PUT_other) auto
  then have g2: "GET m2 (bp - 4) = 1" by (simp add: g1)
  have n2: "NEXT_BLKP m2 bp = bp"
    using GET_SIZE_one[OF g2] by (simp add: NEXT_BLKP_def WSIZE_def)
  define m3 where "m3 = PUT m2 (bp - 4) (tag c False)"
  have f3: "FTRP m3 bp = bp + c - 8"
    unfolding m3_def by (rule FTRP_PUT_hdr[OF c(1,3)])
  show ?thesis
    unfolding place_def Let_def cs
    by (simp add: cmp tag_0_True tag_PACK HDRP_def WSIZE_def m1_def[symmetric] f1 m2_def[symmetric] n2
        m3_def[symmetric] f3)
qed

lemma place_zero_reads:
  assumes hd: "GET (mem s) (bp - 4) = tag c False" and c: "8 dvd c" "16 \<le> c" "c < 2 ^ 32"
    and bp: "8 \<le> bp"
  shows "GET (mem (place s bp 0)) (bp - 4) = tag c False"
    "GET (mem (place s bp 0)) (bp - 8) = 1"
    "same_outside (mem s) (mem (place s bp 0)) (bp - 8) (bp + c - 4)"
proof -
  let ?m1 = "PUT (mem s) (bp - 4) 1"
  let ?m2 = "PUT ?m1 (bp - 8) 1"
  let ?m3 = "PUT ?m2 (bp - 4) (tag c False)"
  let ?m4 = "PUT ?m3 (bp + c - 8) (tag c False)"
  have eq: "mem (place s bp 0) = ?m4" by (simp add: place_zero[OF assms])
  have "GET ?m4 (bp - 4) = GET ?m3 (bp - 4)" using c bp by (intro GET_PUT_other) auto
  then show "GET (mem (place s bp 0)) (bp - 4) = tag c False" by (simp add: eq GET_PUT_same)
  have "GET ?m4 (bp - 8) = GET ?m3 (bp - 8)" using c bp by (intro GET_PUT_other) auto
  also have "\<dots> = GET ?m2 (bp - 8)" using bp by (intro GET_PUT_other) auto
  finally show "GET (mem (place s bp 0)) (bp - 8) = 1" by (simp add: eq GET_PUT_same)
  have s1: "same_outside (mem s) ?m1 (bp - 8) (bp + c - 4)" using c bp by (intro same_outside_PUT) auto
  have s2: "same_outside ?m1 ?m2 (bp - 8) (bp + c - 4)" using c bp by (intro same_outside_PUT) auto
  have s3: "same_outside ?m2 ?m3 (bp - 8) (bp + c - 4)" using c bp by (intro same_outside_PUT) auto
  have s4: "same_outside ?m3 ?m4 (bp - 8) (bp + c - 4)" using c bp by (intro same_outside_PUT) auto
  show "same_outside (mem s) (mem (place s bp 0)) (bp - 8) (bp + c - 4)"
    unfolding eq using s1 s2 s3 s4 by (blast intro: same_outside_trans)
qed

lemma adjust_size_wrap: "adjust_size 4294967288 = 0"
  by (simp add: adjust_size_def)

text \<open>
  C4, as stated, fails: not every request size at most \<open>csize\<close> is laid out as the claim
  says. \<open>mm_malloc\<close> really passes the size 0 to \<open>place\<close>: for a request of \<open>2 ^ 32 - 8\<close> bytes
  the sum \<open>size + 8 + 7\<close> wraps to 7 in the 32-bit \<open>size_t\<close> and the adjusted size is
  \<open>8 * (7 div 8) = 0\<close>; \<open>find_fit\<close> accepts the free block of 4096 bytes of the fresh heap, and \<open>place\<close> takes its split branch (\<open>4096 - 0 \<ge> 16\<close>). It writes the tag of
  the allocated part over the footer of the prologue and then the header of the free rest
  over the header just written: no allocated block results, the block is free as before.
\<close>

theorem C4_place_zero_counterexample:
  "adjust_size 4294967288 = 0
   \<and> mm_malloc heap1 4294967288 = Some (place heap1 16 0, Some 16)
   \<and> GET (mem heap1) (HDRP 16) = PACK 4096 0
   \<and> GET (mem (place heap1 16 0)) (HDRP 16) = PACK 4096 0
   \<and> GET_ALLOC (mem (place heap1 16 0)) (HDRP 16) = 0
   \<and> GET (mem heap1) 8 = PACK 8 1
   \<and> GET (mem (place heap1 16 0)) 8 = PACK 0 1"
proof -
  have v: "valid_heap heap1 ([] @ (4096, False) # [])" by (simp add: heap1_valid)
  have b: "16 = heap_listp heap1 + 8 + total []" by (simp add: heap1_valid)
  note blk = valid_heap_block[OF v b]
  have c: "(8 :: nat) dvd 4096" "(16 :: nat) \<le> 4096" "(4096 :: nat) < 2 ^ 32" "(8 :: nat) \<le> 16" by simp_all
  note pz = place_zero_reads[OF blk(1) c]
  have n0: "(4294967288 :: word32) \<noteq> 0" by simp
  have fit: "dropWhile (busy (unat (adjust_size 4294967288))) [(4096, False)] \<noteq> []"
    by (simp add: adjust_size_wrap busy_def)
  have m: "mm_malloc heap1 4294967288 = Some (place heap1 16 0, Some 16)"
    using mm_malloc_cases(1)[OF heap1_valid(1) n0 refl refl fit]
    by (simp add: adjust_size_wrap heap1_valid busy_def)
  have t: "tag 4096 False = PACK 4096 0" "tag 8 True = PACK 8 1" by (simp_all add: tag_def)
  have h0: "GET (mem heap1) (HDRP 16) = PACK 4096 0"
    using blk(1) by (simp add: HDRP_def WSIZE_def t)
  have h: "GET (mem (place heap1 16 0)) (HDRP 16) = tag 4096 False"
    using pz(1) by (simp add: HDRP_def WSIZE_def)
  have ga: "GET_ALLOC (mem (place heap1 16 0)) (HDRP 16) = 0"
    using GET_ALLOC_tag[OF h] by simp
  have p8: "GET (mem heap1) 8 = PACK 8 1"
    using heap1_valid(1) by (simp add: valid_heap_def heap1_valid(2) t)
  have f8: "GET (mem (place heap1 16 0)) 8 = PACK 0 1"
    using pz(2) by (simp add: tag_0_True)
  show ?thesis by (intro conjI adjust_size_wrap m h0 h[unfolded t] ga p8 f8)
qed

text \<open>
  C4, amended. For a free block of size \<open>csize\<close> in a heap that satisfies the invariants
  and every request size \<open>asize\<close> that is a positive multiple of 8 with \<open>asize \<le> csize\<close>:
  \<open>place\<close> splits exactly when \<open>csize - asize \<ge> 16\<close>. It then writes exactly the two tags of
  an allocated block of \<open>asize\<close> bytes at the block's address and the two tags of a free
  block of \<open>csize - asize\<close> bytes right after it; otherwise it writes exactly the two tags
  of an allocated block of \<open>csize\<close> bytes. When \<open>asize\<close> is at least 16, as every adjusted
  size is that did not wrap, the heap satisfies the invariants afterwards, with the block
  replaced accordingly.
\<close>

theorem C4_place_splits:
  assumes "valid_heap s (pre @ (csize, False) # post)" and "bp = heap_listp s + 8 + total pre"
    and "a = unat asize" and "8 dvd a" and "8 \<le> a" and "a \<le> csize"
  shows "(16 \<le> csize - a \<longrightarrow>
            place s bp asize = s\<lparr>mem := set_block (set_block (mem s) bp a True) (bp + a) (csize - a) False\<rparr>
            \<and> tags_at (mem (place s bp asize)) bp [(a, True), (csize - a, False)]
            \<and> (16 \<le> a \<longrightarrow>
                 valid_heap (place s bp asize) (pre @ (a, True) # (csize - a, False) # post)))
       \<and> (csize - a < 16 \<longrightarrow>
            place s bp asize = s\<lparr>mem := set_block (mem s) bp csize True\<rparr>
            \<and> tags_at (mem (place s bp asize)) bp [(csize, True)]
            \<and> valid_heap (place s bp asize) (pre @ (csize, True) # post))"
proof -
  let ?h = "heap_listp s"
  let ?A = "(8, True) # pre"
  note blk = valid_heap_block[OF assms(1,2)]
  have bp4: "4 \<le> bp" using blk(6) by simp
  note eq = place_set_block[OF blk(1,4,5) assms(3,4,5,6) bp4]
  have t: "tags_at (mem s) ?h (?A @ (csize, False) # post)"
    using assms(1) by (simp add: valid_heap_def)
  have ok: "sizes_ok (?A @ (csize, False) # post)" using valid_heap_sizes[OF assms(1)] by simp
  have bd: "?h + total ?A + csize + total post < 2 ^ 32" using valid_heap_bound[OF assms(1)] by simp
  have h4: "4 \<le> ?h" using assms(1) by (simp add: valid_heap_def)
  have bpA: "bp = ?h + total ?A" by (simp add: assms(2))
  note pt = place_tags(1)[OF t ok h4 bd bpA assms(3,4,5,6)]
  have new: "tags_at (mem (place s bp asize)) bp
               (if 16 \<le> csize - a then [(a, True), (csize - a, False)] else [(csize, True)])"
    using pt unfolding tags_at_append by (simp add: bpA)
  have v16: "16 \<le> a \<longrightarrow> valid_heap (place s bp asize)
               (pre @ (if 16 \<le> csize - a then [(a, True), (csize - a, False)] else [(csize, True)]) @ post)"
    using place_valid(1)[OF assms(1,2,3,4) _ assms(6)] by blast
  have vns: "csize - a < 16 \<longrightarrow> valid_heap (place s bp asize) (pre @ (csize, True) # post)"
    using mark_valid[OF assms(1,2), of True] eq by auto
  show ?thesis using eq new v16 vns by auto
qed

theorem C4_place_splits_witness:
  "valid_heap heap1 ([] @ (4096, False) # [])
   \<and> place heap1 16 24 = heap1\<lparr>mem := set_block (set_block (mem heap1) 16 24 True) 40 4072 False\<rparr>
   \<and> tags_at (mem (place heap1 16 24)) 16 [(24, True), (4072, False)]
   \<and> valid_heap (place heap1 16 24) [(24, True), (4072, False)]
   \<and> place heap1 16 4088 = heap1\<lparr>mem := set_block (mem heap1) 16 4096 True\<rparr>
   \<and> tags_at (mem (place heap1 16 4088)) 16 [(4096, True)]
   \<and> valid_heap (place heap1 16 4088) [(4096, True)]
   \<and> place heap1 16 8 = heap1\<lparr>mem := set_block (set_block (mem heap1) 16 8 True) 24 4088 False\<rparr>
   \<and> tags_at (mem (place heap1 16 8)) 16 [(8, True), (4088, False)]"
proof -
  have v: "valid_heap heap1 ([] @ (4096, False) # [])" by (simp add: heap1_valid)
  have b: "16 = heap_listp heap1 + 8 + total []" by (simp add: heap1_valid)
  have "place heap1 16 24 = heap1\<lparr>mem := set_block (set_block (mem heap1) 16 24 True) 40 4072 False\<rparr>
     \<and> tags_at (mem (place heap1 16 24)) 16 [(24, True), (4072, False)]
     \<and> valid_heap (place heap1 16 24) [(24, True), (4072, False)]"
    using C4_place_splits[OF v b, of 24 24] by auto
  moreover have "place heap1 16 4088 = heap1\<lparr>mem := set_block (mem heap1) 16 4096 True\<rparr>
     \<and> tags_at (mem (place heap1 16 4088)) 16 [(4096, True)]
     \<and> valid_heap (place heap1 16 4088) [(4096, True)]"
    using C4_place_splits[OF v b, of 4088 4088] by auto
  moreover have "place heap1 16 8 = heap1\<lparr>mem := set_block (set_block (mem heap1) 16 8 True) 24 4088 False\<rparr>
     \<and> tags_at (mem (place heap1 16 8)) 16 [(8, True), (4088, False)]"
    using C4_place_splits[OF v b, of 8 8] by auto
  ultimately show ?thesis using v by blast
qed




section \<open>mm\_realloc\<close>
























section \<open>Adjacent free blocks\<close>


























end
